theory Spec2Isabelle
  imports Main "HOL-Library.AList"
begin

section \<open>Values, errors and iteration\<close>

text \<open>
  The combination runner of \<^verbatim>\<open>xyzpy/gen/combo_runner.py\<close> and the helpers of
  \<^verbatim>\<open>xyzpy/utils.py\<close> work on untyped nested Python sequences. Values are modelled
  by one datatype: scalars, tuples, lists, one-shot iterators (a \<^verbatim>\<open>zip\<close> object or
  a generator, given by the sequence it yields), handles of submitted work and
  deferred calls. Every exception is a value of \<open>err\<close>; a fallible computation returns
  \<open>err + 'a\<close> with \<open>Inl\<close> for the exception.
\<close>

datatype err =
    TypeError string
  | AttributeError string
  | ValueError string
  | IndexError string
  | OtherError string

datatype val =
    NoneV
  | IntV int
  | BoolV bool
  | TupleV "val list"
  | ListV "val list"
  | IterV "val list"
  | FutureV nat
  | AsyncResultV nat
  | DelayedV "(string \<times> val) list"

type_synonym kwargs = "(string \<times> val) list"

text \<open>
  \<open>py_iter\<close> is what iterating a value yields: the items of a tuple, a list or an
  iterator, and a type error for everything else. \<open>mapE\<close> is a list comprehension whose
  body may raise: it stops at the first exception.
\<close>

fun py_iter :: "val \<Rightarrow> err + val list" where
  "py_iter (TupleV xs) = Inr xs"
| "py_iter (ListV xs) = Inr xs"
| "py_iter (IterV xs) = Inr xs"
| "py_iter _ = Inl (TypeError ''object is not iterable'')"

primrec mapE :: "('a \<Rightarrow> err + 'b) \<Rightarrow> 'a list \<Rightarrow> err + 'b list" where
  "mapE f [] = Inr []"
| "mapE f (x # xs) =
     (case f x of
        Inl e \<Rightarrow> Inl e
      | Inr y \<Rightarrow> (case mapE f xs of Inl e \<Rightarrow> Inl e | Inr ys \<Rightarrow> Inr (y # ys)))"

text \<open>
  \<^verbatim>\<open>zip(*args)\<close> takes one item of every argument in turn and stops as soon as one
  argument is exhausted; without arguments it yields nothing. \<open>zip_rows\<close> is this on
  the item lists, \<open>py_zip\<close> iterates the arguments first (a type error if one is not
  iterable), and \<open>py_zip_star\<close> unpacks the argument sequence.
\<close>

function zip_rows :: "'a list list \<Rightarrow> 'a list list" where
  "zip_rows xss =
     (if xss = [] \<or> [] \<in> set xss then []
      else map hd xss # zip_rows (map tl xss))"
  by pat_completeness auto
termination
proof (relation "measure (\<lambda>xss. length (hd xss))")
  fix xss :: "'a list list"
  assume "\<not> (xss = [] \<or> [] \<in> set xss)"
  then have "xss \<noteq> []" and "hd xss \<noteq> []"
    by (auto dest: hd_in_set)
  then show "(map tl xss, xss) \<in> measure (\<lambda>xss. length (hd xss))"
    by (simp add: hd_map)
qed simp

definition py_zip :: "val list \<Rightarrow> err + val" where
  "py_zip args =
     (case mapE py_iter args of
        Inl e \<Rightarrow> Inl e
      | Inr rows \<Rightarrow> Inr (IterV (map TupleV (zip_rows rows))))"

definition py_zip_star :: "val \<Rightarrow> err + val" where
  "py_zip_star its =
     (case py_iter its of Inl e \<Rightarrow> Inl e | Inr args \<Rightarrow> py_zip args)"

text \<open>
  From \<^verbatim>\<open>utils.py\<close>:
  \<^verbatim>\<open>
  def unzip(its, zip_level=1):
      def _unzipper(its, zip_level):
          if zip_level > 1:
              return (zip(*_unzipper(it, zip_level - 1)) for it in its)
          else:
              return its
      return zip(*_unzipper(its, zip_level)) if zip_level else its
  \<close>
  \<open>unzipper\<close> is the inner function \<^verbatim>\<open>_unzipper\<close>. Unpacking the generator with
  \<^verbatim>\<open>*\<close> runs it to its end, so every \<^verbatim>\<open>zip\<close> object exists, and every type error
  has been raised, when \<open>unzip\<close> returns.
\<close>

function unzipper :: "val \<Rightarrow> int \<Rightarrow> err + val" where
  "unzipper its zip_level =
     (if zip_level > 1 then
        (case py_iter its of
           Inl e \<Rightarrow> Inl e
         | Inr items \<Rightarrow>
             (case mapE (\<lambda>it. case unzipper it (zip_level - 1) of
                                  Inl e \<Rightarrow> Inl e
                                | Inr u \<Rightarrow> py_zip_star u) items of
                Inl e \<Rightarrow> Inl e
              | Inr zs \<Rightarrow> Inr (IterV zs)))
      else Inr its)"
  by pat_completeness auto
termination
  by (relation "measure (\<lambda>(its, n). nat n)") auto

definition unzip :: "val \<Rightarrow> int \<Rightarrow> err + val" where
  "unzip its zip_level =
     (if zip_level \<noteq> 0 then
        (case unzipper its zip_level of Inl e \<Rightarrow> Inl e | Inr u \<Rightarrow> py_zip_star u)
      else Inr its)"



section \<open>State and effects\<close>

text \<open>
  What a run of the combination runner changes outside its result is kept in a
  \<open>world\<close>: the calls registered with the pool, in submission order, each with its
  keyword arguments and with the outcome the pool will report for it; the results cached
  on futures (the \<^verbatim>\<open>_stored_result\<close> attribute, by handle); and the number of effective
  updates of the progress bar. A handle \<open>FutureV h\<close> or \<open>AsyncResultV h\<close> is the
  \<open>h\<close>-th registered call. A computation takes the world and returns an exception or a
  value together with the world it leaves behind.
\<close>

record world =
  submitted :: "(kwargs \<times> (err + val)) list"
  stored :: "(nat \<times> val) list"
  progress :: nat

type_synonym 'a M = "world \<Rightarrow> (err + 'a) \<times> world"

definition returnM :: "'a \<Rightarrow> 'a M" where
  "returnM x = (\<lambda>s. (Inr x, s))"

definition raiseM :: "err \<Rightarrow> 'a M" where
  "raiseM e = (\<lambda>s. (Inl e, s))"

definition bindM :: "'a M \<Rightarrow> ('a \<Rightarrow> 'b M) \<Rightarrow> 'b M" where
  "bindM m f = (\<lambda>s. case m s of (Inl e, s') \<Rightarrow> (Inl e, s') | (Inr x, s') \<Rightarrow> f x s')"

definition liftE :: "err + 'a \<Rightarrow> 'a M" where
  "liftE r = (\<lambda>s. (r, s))"

primrec mapM :: "('a \<Rightarrow> 'b M) \<Rightarrow> 'a list \<Rightarrow> 'b list M" where
  "mapM f [] = returnM []"
| "mapM f (x # xs) = bindM (f x) (\<lambda>y. bindM (mapM f xs) (\<lambda>ys. returnM (y # ys)))"

lemma mapM_cong [fundef_cong]:
  "xs = ys \<Longrightarrow> (\<And>x. x \<in> set ys \<Longrightarrow> f x = g x) \<Longrightarrow> mapM f xs = mapM g ys"
  by (induction ys arbitrary: xs) auto

text \<open>
  The user's function is a function from its keyword arguments to an exception or a
  value. What \<open>nested_submit\<close> calls is a \<open>callable\<close>, which may also change the world:
  the sequential mode wraps the function so that every call advances the progress bar.

  A call \<^verbatim>\<open>f(**kwds, **{arg: x})\<close> raises a type error when \<^verbatim>\<open>arg\<close> is a key of
  \<^verbatim>\<open>kwds\<close>, before \<^verbatim>\<open>f\<close> is entered (\<open>call_kwargs\<close>); the dictionary display
  \<^verbatim>\<open>{**kwds, arg: x}\<close> overwrites the key where it stands or appends it (\<open>dict_set\<close>).
\<close>

type_synonym pyfn = "kwargs \<Rightarrow> err + val"
type_synonym callable = "kwargs \<Rightarrow> val M"

definition call_kwargs :: "kwargs \<Rightarrow> string \<Rightarrow> val \<Rightarrow> err + kwargs" where
  "call_kwargs kwds arg x =
     (if arg \<in> set (map fst kwds)
      then Inl (TypeError ''got multiple values for keyword argument'')
      else Inr (kwds @ [(arg, x)]))"

definition dict_set :: "kwargs \<Rightarrow> string \<Rightarrow> val \<Rightarrow> kwargs" where
  "dict_set kwds arg x = AList.update arg x kwds"

text \<open>
  A pool is known by what the code asks of it: whether it has a \<^verbatim>\<open>submit\<close> method, an
  \<^verbatim>\<open>apply_async\<close> method or neither, and whether it has a \<^verbatim>\<open>scheduler\<close> attribute
  (a distributed client). Registering a call returns a fresh handle, a future for
  \<^verbatim>\<open>submit\<close> and an asynchronous result for \<^verbatim>\<open>apply_async\<close>; the outcome of the
  call is that of the function on the arguments, computed away from the caller's world.
  \<^verbatim>\<open>
  def default_submitter(pool, fn, *args, **kwds):
      try:
          future = pool.submit(fn, *args, **kwds)
      except AttributeError:
          future = pool.apply_async(fn, *args, **kwds)
      return future
  \<close>
  \<open>nested_submit\<close> calls it as \<^verbatim>\<open>submitter(pool, fn, **kwds, **{arg: x})\<close>. The
  parameters \<^verbatim>\<open>pool\<close> and \<^verbatim>\<open>fn\<close> are then bound twice when the keyword arguments
  hold one of these names, which is a type error.
\<close>

datatype submit_api = HasSubmit | HasApplyAsync | HasNeither

record pool =
  pool_api :: submit_api
  has_scheduler :: bool

definition pool_submit :: "pool \<Rightarrow> callable \<Rightarrow> kwargs \<Rightarrow> val M" where
  "pool_submit p fn kw =
     (case pool_api p of
        HasSubmit \<Rightarrow>
          (\<lambda>s. (Inr (FutureV (length (submitted s))),
                s\<lparr>submitted := submitted s @ [(kw, fst (fn kw s))]\<rparr>))
      | _ \<Rightarrow> raiseM (AttributeError ''submit''))"

definition pool_apply_async :: "pool \<Rightarrow> callable \<Rightarrow> kwargs \<Rightarrow> val M" where
  "pool_apply_async p fn kw =
     (case pool_api p of
        HasApplyAsync \<Rightarrow>
          (\<lambda>s. (Inr (AsyncResultV (length (submitted s))),
                s\<lparr>submitted := submitted s @ [(kw, fst (fn kw s))]\<rparr>))
      | _ \<Rightarrow> raiseM (AttributeError ''apply_async''))"

definition default_submitter :: "pool \<Rightarrow> callable \<Rightarrow> kwargs \<Rightarrow> val M" where
  "default_submitter p fn kwds =
     (if ''pool'' \<in> set (map fst kwds) \<or> ''fn'' \<in> set (map fst kwds)
      then raiseM (TypeError ''got multiple values for argument'')
      else (\<lambda>s. case pool_submit p fn kwds s of
                   (Inl (AttributeError a), s') \<Rightarrow> pool_apply_async p fn kwds s'
                 | r \<Rightarrow> r))"

text \<open>
  \<^verbatim>\<open>delayed(fn, pure=True)(**kw)\<close> builds a deferred call of the function and runs
  nothing.
\<close>

definition py_delayed :: "kwargs \<Rightarrow> val M" where
  "py_delayed kw = returnM (DelayedV kw)"

text \<open>
  \<^verbatim>\<open>
  def nested_submit(fn, combos, kwds, delay=False, pool=None, submitter=default_submitter):
      arg, inputs = combos[0]
      if len(combos) == 1:
          if pool:
              return [submitter(pool, fn, **kwds, **{arg: x}) for x in inputs]
          elif delay:
              return [delayed(fn, pure=True)(**kwds, **{arg: x}) for x in inputs]
          else:
              return [fn(**kwds, **{arg: x}) for x in inputs]
      else:
          return [nested_submit(fn, combos[1:], {**kwds, arg: x}, delay=delay, pool=pool,
                                submitter=submitter) for x in inputs]
  \<close>
\<close>

type_synonym submitter = "pool \<Rightarrow> callable \<Rightarrow> kwargs \<Rightarrow> val M"

fun nested_submit ::
  "callable \<Rightarrow> (string \<times> val list) list \<Rightarrow> kwargs \<Rightarrow> bool \<Rightarrow> pool option \<Rightarrow> submitter \<Rightarrow> val M"
where
  "nested_submit fn [] kwds delay pool submitter = raiseM (IndexError ''list index out of range'')"
| "nested_submit fn [(arg, inputs)] kwds delay pool submitter =
     bindM
       (case pool of
          Some p \<Rightarrow> mapM (\<lambda>x. bindM (liftE (call_kwargs kwds arg x)) (submitter p fn)) inputs
        | None \<Rightarrow>
            if delay then mapM (\<lambda>x. bindM (liftE (call_kwargs kwds arg x)) py_delayed) inputs
            else mapM (\<lambda>x. bindM (liftE (call_kwargs kwds arg x)) fn) inputs)
       (\<lambda>leaves. returnM (ListV leaves))"
| "nested_submit fn ((arg, inputs) # combos) kwds delay pool submitter =
     bindM
       (mapM (\<lambda>x. nested_submit fn combos (dict_set kwds arg x) delay pool submitter) inputs)
       (\<lambda>subs. returnM (ListV subs))"

section \<open>Collection\<close>

text \<open>
  A progress bar has a total and may be disabled; \<^verbatim>\<open>pbar.update()\<close> counts unless the
  bar is disabled, and a bar is true in a condition when its total is positive.
  \<^verbatim>\<open>future.result()\<close> and \<^verbatim>\<open>future.get()\<close> report the outcome of the call, or raise
  an attribute error on a value without the method.
  \<^verbatim>\<open>
  def default_getter(pbar=None):
      if pbar:
          def getter(future):
              try:
                  res = future.result()
              except AttributeError:
                  res = future.get()
              pbar.update()
              return res
      else:
          def getter(future):
              try:
                  res = future.result()
              except AttributeError:
                  res = future.get()
              return res
      return getter

  def nested_get(futures, ndim, getter):
      return ([getter(fut) for fut in futures] if ndim == 1 else
              [nested_get(fut, ndim - 1, getter) for fut in futures])
  \<close>
\<close>

record pbar =
  total :: nat
  disabled :: bool

definition pbar_update :: "pbar \<Rightarrow> unit M" where
  "pbar_update p =
     (\<lambda>s. (Inr (), if disabled p then s else s\<lparr>progress := progress s + 1\<rparr>))"

definition future_result :: "val \<Rightarrow> val M" where
  "future_result future =
     (case future of
        FutureV h \<Rightarrow>
          (\<lambda>s. if h < length (submitted s) then (snd (submitted s ! h), s)
               else (Inl (OtherError ''unknown future''), s))
      | _ \<Rightarrow> raiseM (AttributeError ''result''))"

definition future_get :: "val \<Rightarrow> val M" where
  "future_get future =
     (case future of
        AsyncResultV h \<Rightarrow>
          (\<lambda>s. if h < length (submitted s) then (snd (submitted s ! h), s)
               else (Inl (OtherError ''unknown future''), s))
      | _ \<Rightarrow> raiseM (AttributeError ''get''))"

definition try_result_then_get :: "val \<Rightarrow> val M" where
  "try_result_then_get future =
     (\<lambda>s. case future_result future s of
            (Inl (AttributeError a), s') \<Rightarrow> future_get future s'
          | r \<Rightarrow> r)"

definition default_getter :: "pbar option \<Rightarrow> val \<Rightarrow> val M" where
  "default_getter pb =
     (case pb of
        Some p \<Rightarrow>
          if total p > 0 then
            (\<lambda>future. bindM (try_result_then_get future)
                        (\<lambda>res. bindM (pbar_update p) (\<lambda>u. returnM res)))
          else try_result_then_get
      | None \<Rightarrow> try_result_then_get)"

fun nested_get :: "val \<Rightarrow> int \<Rightarrow> (val \<Rightarrow> val M) \<Rightarrow> val M" where
  "nested_get (TupleV futs) ndim getter =
     bindM (if ndim = 1 then mapM getter futs
            else mapM (\<lambda>fut. nested_get fut (ndim - 1) getter) futs)
           (\<lambda>rs. returnM (ListV rs))"
| "nested_get (ListV futs) ndim getter =
     bindM (if ndim = 1 then mapM getter futs
            else mapM (\<lambda>fut. nested_get fut (ndim - 1) getter) futs)
           (\<lambda>rs. returnM (ListV rs))"
| "nested_get (IterV futs) ndim getter =
     bindM (if ndim = 1 then mapM getter futs
            else mapM (\<lambda>fut. nested_get fut (ndim - 1) getter) futs)
           (\<lambda>rs. returnM (ListV rs))"
| "nested_get v ndim getter = raiseM (TypeError ''object is not iterable'')"


section \<open>Helpers of utils.py\<close>

text \<open>
  \<^verbatim>\<open>
  def prod(it):
      return functools.reduce(operator.mul, it)

  def flatten(its, n):
      if n > 1:
          return itertools.chain(*(flatten(it, n - 1) for it in its))
      else:
          return its

  def update_upon_eval(fn, pbar):
      def new_fn(*args, **kwargs):
          result = fn(*args, **kwargs)
          pbar.update()
          return result
      return new_fn

  def _get_fn_name(fn):
      try:
          return fn.__name__
      except AttributeError:
          try:
              return fn.key.partition('-')[0]
          except AttributeError:
              return fn.func.__name__
  \<close>
  \<open>prod_it\<close> is \<^verbatim>\<open>prod\<close>, which raises on an empty iterable. \<open>flatten\<close> gives the items
  its result yields when it is iterated, as every caller does at once.

  The function handed to the runner is an object: besides what a call of it does
  (\<open>fn_call\<close>), it may have a \<^verbatim>\<open>__name__\<close> (\<open>dunder_name\<close>), a \<^verbatim>\<open>key\<close> that is a
  string (\<open>key_attr\<close>; a key of another type has no \<^verbatim>\<open>partition\<close> and fails the same
  way as a missing one) and a \<^verbatim>\<open>func\<close>, which in turn may have a \<^verbatim>\<open>__name__\<close>
  (\<open>func_attr\<close>). \<open>get_fn_name\<close> is \<^verbatim>\<open>_get_fn_name\<close>: the attribute error of the last
  attempt is the one that leaves it.
\<close>

record pyfunc =
  dunder_name :: "string option"
  key_attr :: "string option"
  func_attr :: "string option option"
  fn_call :: pyfn

definition get_fn_name :: "pyfunc \<Rightarrow> err + string" where
  "get_fn_name fn =
     (case dunder_name fn of
        Some n \<Rightarrow> Inr n
      | None \<Rightarrow>
          (case key_attr fn of
             Some k \<Rightarrow> Inr (takeWhile (\<lambda>c. c \<noteq> CHR ''-'') k)
           | None \<Rightarrow>
               (case func_attr fn of
                  None \<Rightarrow> Inl (AttributeError ''func'')
                | Some None \<Rightarrow> Inl (AttributeError ''__name__'')
                | Some (Some n) \<Rightarrow> Inr n)))"

definition prod_it :: "nat list \<Rightarrow> err + nat" where
  "prod_it it =
     (case it of
        [] \<Rightarrow> Inl (TypeError ''reduce() of empty sequence with no initial value'')
      | x # xs \<Rightarrow> Inr (foldl (*) x xs))"

function flatten :: "val \<Rightarrow> int \<Rightarrow> err + val list" where
  "flatten its n =
     (if n > 1 then
        (case py_iter its of
           Inl e \<Rightarrow> Inl e
         | Inr xs \<Rightarrow>
             (case mapE (\<lambda>it. flatten it (n - 1)) xs of
                Inl e \<Rightarrow> Inl e
              | Inr yss \<Rightarrow> Inr (concat yss)))
      else py_iter its)"
  by pat_completeness auto
termination
  by (relation "measure (\<lambda>(its, n). nat n)") auto

definition lift_fn :: "pyfn \<Rightarrow> callable" where
  "lift_fn fn = (\<lambda>kw. liftE (fn kw))"

definition update_upon_eval :: "callable \<Rightarrow> pbar \<Rightarrow> callable" where
  "update_upon_eval fn pb =
     (\<lambda>kw. bindM (fn kw) (\<lambda>result. bindM (pbar_update pb) (\<lambda>u. returnM result)))"

section \<open>Backends\<close>

lemma mapE_cong [fundef_cong]:
  "xs = ys \<Longrightarrow> (\<And>x. x \<in> set ys \<Longrightarrow> f x = g x) \<Longrightarrow> mapE f xs = mapE g ys"
  by (induction ys arbitrary: xs) (auto split: sum.splits)

text \<open>
  The libraries behind the backends are modelled by what the runner relies on.
  \<^verbatim>\<open>compute(*jobs, get=scheduler, num_workers=num_workers)\<close> evaluates every deferred
  call inside the lists and tuples it is given and returns the results of its arguments as
  a tuple; every scheduler computes the same values. \<^verbatim>\<open>as_completed\<close> hands the
  futures back in the order in which they complete, which the environment fixes. A
  process pool refuses a worker count that is not positive.
\<close>

fun compute_val :: "pyfn \<Rightarrow> val \<Rightarrow> err + val" where
  "compute_val fn (DelayedV kw) = fn kw"
| "compute_val fn (ListV xs) =
     (case mapE (compute_val fn) xs of Inl e \<Rightarrow> Inl e | Inr ys \<Rightarrow> Inr (ListV ys))"
| "compute_val fn (TupleV xs) =
     (case mapE (compute_val fn) xs of Inl e \<Rightarrow> Inl e | Inr ys \<Rightarrow> Inr (TupleV ys))"
| "compute_val fn v = Inr v"

definition dask_compute :: "pyfn \<Rightarrow> val \<Rightarrow> err + val" where
  "dask_compute fn jobs =
     (case py_iter jobs of
        Inl e \<Rightarrow> Inl e
      | Inr args \<Rightarrow>
          (case mapE (compute_val fn) args of
             Inl e \<Rightarrow> Inl e
           | Inr rs \<Rightarrow> Inr (TupleV rs)))"

datatype sched = SchedName string | SchedGet nat

datatype parallel_opt = ParBool bool | ParStr string

record env =
  scheduler_table :: "(string \<times> nat) list"
  as_completed :: "val list \<Rightarrow> val list"

text \<open>
  Modelled from the spec: \<^verbatim>\<open>dask_scheduler_get\<close> lives in \<^verbatim>\<open>gen/dask_stuff.py\<close>, which is
  not among the sources. The spec says that a scheduler given as a string must be
  resolved to a concrete graph-evaluation strategy first and that an unrecognized name
  is a configuration error. The names that are recognized are a parameter, the
  \<open>scheduler_table\<close> of the environment.
\<close>

definition dask_scheduler_get :: "env \<Rightarrow> string \<Rightarrow> int option \<Rightarrow> err + sched" where
  "dask_scheduler_get ev name num_workers =
     (case map_of (scheduler_table ev) name of
        None \<Rightarrow> Inl (ValueError ''unrecognized scheduler'')
      | Some g \<Rightarrow> Inr (SchedGet g))"

text \<open>
  Modelled from the spec: \<^verbatim>\<open>try_stored_then_result\<close> lives in \<^verbatim>\<open>gen/dask_stuff.py\<close>,
  which is not among the sources. The spec says that each future's result is cached as a
  side channel the instant it completes and that collection then goes through the cached
  value; a future without a cached value is asked for its result.
\<close>

definition try_stored_then_result :: "val \<Rightarrow> val M" where
  "try_stored_then_result future =
     (case future of
        FutureV h \<Rightarrow>
          (\<lambda>s. case map_of (stored s) h of
                 Some v \<Rightarrow> (Inr v, s)
               | None \<Rightarrow> future_result future s)
      | _ \<Rightarrow> future_result future)"

definition store_result :: "val \<Rightarrow> unit M" where
  "store_result f =
     bindM (future_result f)
       (\<lambda>v. case f of
               FutureV h \<Rightarrow> (\<lambda>s. (Inr (), s\<lparr>stored := (h, v) # stored s\<rparr>))
             | _ \<Rightarrow> returnM ())"

definition process_pool_executor :: "int option \<Rightarrow> err + pool" where
  "process_pool_executor max_workers =
     (case max_workers of
        None \<Rightarrow> Inr \<lparr>pool_api = HasSubmit, has_scheduler = False\<rparr>
      | Some n \<Rightarrow>
          if n \<le> 0 then Inl (ValueError ''max_workers must be greater than 0'')
          else Inr \<lparr>pool_api = HasSubmit, has_scheduler = False\<rparr>)"

definition mpi_pool_executor :: "int option \<Rightarrow> pool" where
  "mpi_pool_executor num_workers = \<lparr>pool_api = HasSubmit, has_scheduler = False\<rparr>"

definition truthy_parallel :: "parallel_opt \<Rightarrow> bool" where
  "truthy_parallel p = (case p of ParBool b \<Rightarrow> b | ParStr s \<Rightarrow> s \<noteq> [])"

definition truthy_num_workers :: "int option \<Rightarrow> bool" where
  "truthy_num_workers w = (case w of None \<Rightarrow> False | Some n \<Rightarrow> n \<noteq> 0)"

definition truthy_scheduler :: "sched option \<Rightarrow> bool" where
  "truthy_scheduler sc =
     (case sc of None \<Rightarrow> False | Some (SchedName s) \<Rightarrow> s \<noteq> [] | Some (SchedGet g) \<Rightarrow> True)"

section \<open>The core runner\<close>

text \<open>
  \<^verbatim>\<open>
  def mpi_combo_runner_pool(fn, combos, constants, hide_progbar, n, num_workers=None):
      from mpi4py.futures import MPIPoolExecutor
      with progbar(total=n, disable=hide_progbar) as pbar:
          getter = default_getter(pbar)
          with MPIPoolExecutor(num_workers) as pool:
              futures = nested_submit(fn, combos, constants, pool=pool)
              results = nested_get(futures, len(combos), getter)
      return results

  def _combo_runner(fn, combos, constants, split=False, parallel=False, num_workers=None,
                    scheduler=None, pool=None, hide_progbar=False):
      n = prod(len(x) for _, x in combos)
      ndim = len(combos)
      if pool is not None:
          if hasattr(pool, 'scheduler'):
              import distributed
              with progbar(total=n, disable=hide_progbar) as pbar:
                  futures = nested_submit(fn, combos, constants, pool=pool)
                  for f in distributed.as_completed(flatten(futures, ndim)):
                      f._stored_result = f.result()
                      pbar.update()
                  results = nested_get(futures, ndim, try_stored_then_result)
          else:
              with progbar(total=n, disable=hide_progbar) as pbar:
                  futures = nested_submit(fn, combos, constants, pool=pool)
                  getter = default_getter(pbar)
                  results = nested_get(futures, ndim, getter)
      elif parallel == 'mpi':
          results = mpi_combo_runner_pool(
              fn, combos, constants, hide_progbar, n=n, num_workers=num_workers)
      elif parallel == 'dask' or scheduler:
          fn_name = _get_fn_name(fn)
          with DaskTqdmProgbar(fn_name, disable=hide_progbar):
              jobs = nested_submit(fn, combos, constants, delay=True)
              if scheduler and isinstance(scheduler, str):
                  scheduler = dask_scheduler_get(scheduler, num_workers=num_workers)
              results = compute(*jobs, get=scheduler, num_workers=num_workers)
      elif parallel or num_workers:
          with cf.ProcessPoolExecutor(max_workers=num_workers) as pool:
              with progbar(total=n, disable=hide_progbar) as pbar:
                  futures = nested_submit(fn, combos, constants, pool=pool)
                  for f in cf.as_completed(flatten(futures, ndim)):
                      pbar.update()
                  results = nested_get(futures, ndim, default_getter())
      else:
          with progbar(total=n, disable=hide_progbar) as p:
              fn = update_upon_eval(fn, p)
              results = nested_submit(fn, combos, constants)
      return list(unzip(results, ndim)) if split else results
  \<close>
  \<open>combo_runner_core\<close> is \<^verbatim>\<open>_combo_runner\<close>. The options are typed as the code tests
  them: \<^verbatim>\<open>parallel\<close> is a truth value or a string, \<^verbatim>\<open>num_workers\<close> an integer or
  nothing, \<^verbatim>\<open>scheduler\<close> a name, a concrete strategy or nothing, each with its
  truthiness. On the deferred-graph path the name of the function is looked up first, for
  the label of the progress display; \<^verbatim>\<open>DaskTqdmProgbar\<close> itself only renders progress
  and leaves no trace in the state.
\<close>

definition mpi_combo_runner_pool ::
  "pyfunc \<Rightarrow> (string \<times> val list) list \<Rightarrow> kwargs \<Rightarrow> bool \<Rightarrow> nat \<Rightarrow> int option \<Rightarrow> val M"
where
  "mpi_combo_runner_pool fn combos constants hide_progbar n num_workers =
     (let pb = \<lparr>total = n, disabled = hide_progbar\<rparr>;
          getter = default_getter (Some pb);
          pool = mpi_pool_executor num_workers
      in bindM (nested_submit (lift_fn (fn_call fn)) combos constants False (Some pool)
                  default_submitter)
           (\<lambda>futures. nested_get futures (int (length combos)) getter))"

definition combo_runner_core ::
  "env \<Rightarrow> pyfunc \<Rightarrow> (string \<times> val list) list \<Rightarrow> kwargs \<Rightarrow> bool \<Rightarrow> parallel_opt \<Rightarrow>
   int option \<Rightarrow> sched option \<Rightarrow> pool option \<Rightarrow> bool \<Rightarrow> val M"
where
  "combo_runner_core ev fn combos constants split parallel num_workers scheduler pool hide_progbar =
     bindM (liftE (prod_it (map (\<lambda>(a, x). length x) combos))) (\<lambda>n.
     let ndim = int (length combos);
         pb = \<lparr>total = n, disabled = hide_progbar\<rparr>
     in bindM
       (case pool of
          Some p \<Rightarrow>
            if has_scheduler p then
              bindM (nested_submit (lift_fn (fn_call fn)) combos constants False (Some p)
                       default_submitter)
                (\<lambda>futures.
              bindM (liftE (flatten futures ndim)) (\<lambda>fs.
              bindM (mapM (\<lambda>f. bindM (store_result f) (\<lambda>u. pbar_update pb))
                       (as_completed ev fs)) (\<lambda>us.
              nested_get futures ndim try_stored_then_result)))
            else
              bindM (nested_submit (lift_fn (fn_call fn)) combos constants False (Some p)
                       default_submitter)
                (\<lambda>futures. nested_get futures ndim (default_getter (Some pb)))
        | None \<Rightarrow>
            if parallel = ParStr ''mpi'' then
              mpi_combo_runner_pool fn combos constants hide_progbar n num_workers
            else if parallel = ParStr ''dask'' \<or> truthy_scheduler scheduler then
              bindM (liftE (get_fn_name fn)) (\<lambda>fn_name.
              bindM (nested_submit (lift_fn (fn_call fn)) combos constants True None
                       default_submitter)
                (\<lambda>jobs.
              bindM (case scheduler of
                       Some (SchedName name) \<Rightarrow>
                         if name \<noteq> [] then liftE (dask_scheduler_get ev name num_workers)
                         else returnM (SchedName name)
                     | Some g \<Rightarrow> returnM g
                     | None \<Rightarrow> returnM (SchedGet 0)) (\<lambda>get.
              liftE (dask_compute (fn_call fn) jobs))))
            else if truthy_parallel parallel \<or> truthy_num_workers num_workers then
              bindM (liftE (process_pool_executor num_workers)) (\<lambda>p.
              bindM (nested_submit (lift_fn (fn_call fn)) combos constants False (Some p)
                       default_submitter)
                (\<lambda>futures.
              bindM (liftE (flatten futures ndim)) (\<lambda>fs.
              bindM (mapM (\<lambda>f. pbar_update pb) (as_completed ev fs)) (\<lambda>us.
              nested_get futures ndim (default_getter None)))))
            else
              nested_submit (update_upon_eval (lift_fn (fn_call fn)) pb) combos constants False
                None default_submitter)
       (\<lambda>results.
          if split then
            bindM (liftE (unzip results ndim)) (\<lambda>u.
            bindM (liftE (py_iter u)) (\<lambda>xs. returnM (ListV xs)))
          else returnM results))"


section \<open>Notions used to state the properties of unzip\<close>

text \<open>
  Trees are nested sequences read to a given depth. \<open>items\<close> are the items of a
  sequence, \<open>tree_at\<close> follows an index path, \<open>is_tree d k\<close> holds of a tree whose \<open>d\<close>
  levels are non-empty sequences over tuples of arity \<open>k\<close>, \<open>project d j\<close> keeps
  component \<open>j\<close> of every leaf tuple, \<open>same_shape d\<close> compares the lengths at every level
  down to depth \<open>d\<close>, \<open>leaf_count d\<close> counts the leaves and \<open>zip_leaves\<close> tuples the
  leaves that a list of trees holds at one index.
\<close>

fun items :: "val \<Rightarrow> val list" where
  "items v = (case py_iter v of Inl e \<Rightarrow> [] | Inr xs \<Rightarrow> xs)"



fun tree_at :: "val \<Rightarrow> nat list \<Rightarrow> val option" where
  "tree_at v [] = Some v"
| "tree_at v (i # idx) =
     (case py_iter v of
        Inl e \<Rightarrow> None
      | Inr xs \<Rightarrow> if i < length xs then tree_at (xs ! i) idx else None)"







definition is_attribute_error :: "err + 'a \<Rightarrow> bool" where
  "is_attribute_error r = (case r of Inl (AttributeError a) \<Rightarrow> True | _ \<Rightarrow> False)"

definition world1 :: world where
  "world1 = \<lparr>submitted = [([(''a'', IntV 1)], Inr (IntV 321)), ([(''a'', IntV 2)], Inr (IntV 322))],
             stored = [], progress = 0\<rparr>"


definition foo3_body :: pyfn where
  "foo3_body kw =
     (case (map_of kw ''a'', map_of kw ''b'', map_of kw ''c'') of
        (Some (IntV a), Some (IntV b), Some (IntV c)) \<Rightarrow>
          if length kw = 3 then Inr (IntV (a + b + c))
          else Inl (TypeError ''unexpected keyword argument'')
      | _ \<Rightarrow> Inl (TypeError ''missing or unsupported argument''))"

definition foo3_scalar :: pyfunc where
  "foo3_scalar =
     \<lparr>dunder_name = Some ''foo3_scalar'', key_attr = None, func_attr = None,
      fn_call = foo3_body\<rparr>"

definition env0 :: env where
  "env0 = \<lparr>scheduler_table = [(''t'', 1), (''p'', 2), (''s'', 3)], as_completed = rev\<rparr>"

definition world0 :: world where
  "world0 = \<lparr>submitted = [], stored = [], progress = 0\<rparr>"

definition combos3 :: "(string \<times> val list) list" where
  "combos3 = [(''a'', [IntV 1, IntV 2]), (''b'', [IntV 10, IntV 20, IntV 30]),
              (''c'', [IntV 100, IntV 200, IntV 300, IntV 400])]"


definition dup_kw_error :: err where
  "dup_kw_error = TypeError ''got multiple values for keyword argument''"


text \<open>
  \<open>has_shape ns\<close> holds of a nested list whose dimension \<open>i\<close> has length \<open>ns ! i\<close>;
  \<open>dims\<close> are the lengths of the value sequences of a combination list; an index is
  valid when it is below the dimension at every position; \<open>bound_args combos idx\<close>
  binds every argument name to the value its sequence holds at the index; \<open>leaf_op\<close> is
  the operation that \<open>nested_submit\<close> performs at the innermost entry, by mode; and
  \<open>leaves_at d\<close> lists the leaves at depth \<open>d\<close> in nested traversal order.
\<close>

fun has_shape :: "nat list \<Rightarrow> val \<Rightarrow> bool" where
  "has_shape [] v = True"
| "has_shape (n # ns) v =
     (case v of ListV xs \<Rightarrow> length xs = n \<and> list_all (has_shape ns) xs | _ \<Rightarrow> False)"

definition dims :: "(string \<times> val list) list \<Rightarrow> nat list" where
  "dims combos = map (\<lambda>(arg, inputs). length inputs) combos"

definition valid_index :: "nat list \<Rightarrow> nat list \<Rightarrow> bool" where
  "valid_index ns idx = list_all2 (<) idx ns"

definition bound_args :: "(string \<times> val list) list \<Rightarrow> nat list \<Rightarrow> kwargs" where
  "bound_args combos idx = map (\<lambda>((arg, inputs), i). (arg, inputs ! i)) (zip combos idx)"

definition leaf_op :: "callable \<Rightarrow> bool \<Rightarrow> pool option \<Rightarrow> submitter \<Rightarrow> callable" where
  "leaf_op fn delay pool submitter =
     (case pool of Some p \<Rightarrow> submitter p fn | None \<Rightarrow> if delay then py_delayed else fn)"

definition combos2 :: "(string \<times> val list) list" where
  "combos2 = [(''a'', [IntV 1, IntV 2]), (''b'', [IntV 10, IntV 20, IntV 30])]"


fun leaves_at :: "nat \<Rightarrow> val \<Rightarrow> val list" where
  "leaves_at 0 v = [v]"
| "leaves_at (Suc d) v = concat (map (leaves_at d) (items v))"

definition futures1 :: val where
  "futures1 = ListV [ListV [FutureV 0, FutureV 1]]"

text \<open>
  The grid of a combination list, flat: \<open>indices ns\<close> lists the index tuples below the
  dimensions \<open>ns\<close> with the last position running fastest, \<open>chunks m k\<close> cuts a list
  into \<open>k\<close> consecutive pieces of length \<open>m\<close>, and \<open>nest ns\<close> folds a flat list of
  leaves into the nested list of dimensions \<open>ns\<close>, row by row. \<open>handle_kind\<close> is the kind
  of handle a pool gives out, and \<open>lex_less\<close> the lexicographic order on index tuples.
\<close>

fun indices :: "nat list \<Rightarrow> nat list list" where
  "indices [] = [[]]"
| "indices (n # ns) = concat (map (\<lambda>i. map ((#) i) (indices ns)) [0..<n])"

fun chunks :: "nat \<Rightarrow> nat \<Rightarrow> 'a list \<Rightarrow> 'a list list" where
  "chunks m 0 xs = []"
| "chunks m (Suc k) xs = take m xs # chunks m k (drop m xs)"

fun nest :: "nat list \<Rightarrow> val list \<Rightarrow> val" where
  "nest [] xs = (case xs of [] \<Rightarrow> NoneV | x # ys \<Rightarrow> x)"
| "nest (n # ns) xs = ListV (map (nest ns) (chunks (prod_list ns) n xs))"

definition handle_kind :: "pool \<Rightarrow> nat \<Rightarrow> val" where
  "handle_kind p = (if pool_api p = HasSubmit then FutureV else AsyncResultV)"

abbreviation lex_less :: "nat list \<Rightarrow> nat list \<Rightarrow> bool" where
  "lex_less a b \<equiv> (a, b) \<in> lexord {(i, j). i < j}"


text \<open>
  \<open>pure_tree g\<close> is the tree of the values of a function \<open>g\<close> that does not touch the
  world, over the combination grid: what the direct mode computes for such a function.
  It is the reference the backends are compared with.
\<close>

fun pure_tree :: "pyfn \<Rightarrow> (string \<times> val list) list \<Rightarrow> kwargs \<Rightarrow> err + val" where
  "pure_tree g [] kwds = Inl (IndexError ''list index out of range'')"
| "pure_tree g [(arg, inputs)] kwds =
     (case mapE (\<lambda>x. case call_kwargs kwds arg x of Inl e \<Rightarrow> Inl e | Inr kw \<Rightarrow> g kw) inputs of
        Inl e \<Rightarrow> Inl e
      | Inr leaves \<Rightarrow> Inr (ListV leaves))"
| "pure_tree g ((arg, inputs) # combos) kwds =
     (case mapE (\<lambda>x. pure_tree g combos (dict_set kwds arg x)) inputs of
        Inl e \<Rightarrow> Inl e
      | Inr subs \<Rightarrow> Inr (ListV subs))"

definition delayed_leaf :: pyfn where
  "delayed_leaf kw = Inr (DelayedV kw)"


text \<open>
  Notions for the pooled modes: \<open>ext s new\<close> is the world after registering the calls
  \<open>new\<close>; \<open>handle_of\<close> relates a handle to the value its call succeeded with;
  \<open>tree_rel\<close> lifts a relation on leaves to trees of a depth; \<open>stored_ok\<close> says that the
  cached results are results of registered calls.
\<close>

definition ext :: "world \<Rightarrow> (kwargs \<times> (err + val)) list \<Rightarrow> world" where
  "ext s new = s\<lparr>submitted := submitted s @ new\<rparr>"

fun tree_rel :: "(val \<Rightarrow> val \<Rightarrow> bool) \<Rightarrow> nat \<Rightarrow> val \<Rightarrow> val \<Rightarrow> bool" where
  "tree_rel L 0 T t = L T t"
| "tree_rel L (Suc d) T t =
     (case T of
        ListV Ts \<Rightarrow> (case t of ListV ts \<Rightarrow> list_all2 (tree_rel L d) Ts ts | _ \<Rightarrow> False)
      | _ \<Rightarrow> False)"

definition handle_of :: "bool \<Rightarrow> (kwargs \<times> (err + val)) list \<Rightarrow> val \<Rightarrow> val \<Rightarrow> bool" where
  "handle_of only_futures js T v =
     (\<exists>h. (T = FutureV h \<or> (\<not> only_futures \<and> T = AsyncResultV h)) \<and>
          h < length js \<and> snd (js ! h) = Inr v)"

definition stored_ok :: "(kwargs \<times> (err + val)) list \<Rightarrow> (nat \<times> val) list \<Rightarrow> bool" where
  "stored_ok js st = (\<forall>h v. map_of st h = Some v \<longrightarrow> h < length js \<and> snd (js ! h) = Inr v)"

definition keeps :: "(kwargs \<times> (err + val)) list \<Rightarrow> world \<Rightarrow> bool" where
  "keeps js s = (submitted s = js \<and> stored_ok js (stored s))"

definition good_getter ::
  "(world \<Rightarrow> bool) \<Rightarrow> (val \<Rightarrow> val \<Rightarrow> bool) \<Rightarrow> (val \<Rightarrow> val M) \<Rightarrow> bool" where
  "good_getter I L getter =
     (\<forall>s T v. I s \<and> L T v \<longrightarrow> (\<exists>s'. getter T s = (Inr v, s') \<and> I s'))"

text \<open>
  The six execution paths of the core runner, the path a configuration selects, and the
  configurations under which the path runs: the pool has a method to register calls (a
  distributed pool has \<^verbatim>\<open>submit\<close>), a scheduler name is known, a worker count given
  to the process pool is positive, and no argument or constant bears a name that
  \<open>default_submitter\<close> binds itself.
\<close>

datatype backend = Distributed | GenericPool | MPI | Dask | ProcessPool | Sequential

definition backend_of ::
  "parallel_opt \<Rightarrow> int option \<Rightarrow> sched option \<Rightarrow> pool option \<Rightarrow> backend" where
  "backend_of parallel num_workers scheduler pool =
     (case pool of
        Some p \<Rightarrow> if has_scheduler p then Distributed else GenericPool
      | None \<Rightarrow>
          if parallel = ParStr ''mpi'' then MPI
          else if parallel = ParStr ''dask'' \<or> truthy_scheduler scheduler then Dask
          else if truthy_parallel parallel \<or> truthy_num_workers num_workers then ProcessPool
          else Sequential)"

definition reserved_free :: "(string \<times> val list) list \<Rightarrow> kwargs \<Rightarrow> bool" where
  "reserved_free combos constants =
     (''pool'' \<notin> fst ` set constants \<union> fst ` set combos \<and>
      ''fn'' \<notin> fst ` set constants \<union> fst ` set combos)"

definition supported ::
  "env \<Rightarrow> world \<Rightarrow> (string \<times> val list) list \<Rightarrow> kwargs \<Rightarrow> parallel_opt \<Rightarrow> int option \<Rightarrow>
   sched option \<Rightarrow> pool option \<Rightarrow> bool" where
  "supported ev s combos constants parallel num_workers scheduler pool =
     (case backend_of parallel num_workers scheduler pool of
        Distributed \<Rightarrow>
          reserved_free combos constants \<and> map_option pool_api pool = Some HasSubmit \<and>
          stored_ok (submitted s) (stored s) \<and> (\<forall>fs. set (as_completed ev fs) \<subseteq> set fs)
      | GenericPool \<Rightarrow>
          reserved_free combos constants \<and> map_option pool_api pool \<noteq> Some HasNeither
      | MPI \<Rightarrow> reserved_free combos constants
      | Dask \<Rightarrow>
          (case scheduler of
             Some (SchedName name) \<Rightarrow> name = [] \<or> map_of (scheduler_table ev) name \<noteq> None
           | _ \<Rightarrow> True)
      | ProcessPool \<Rightarrow>
          reserved_free combos constants \<and>
          (case num_workers of None \<Rightarrow> True | Some n \<Rightarrow> 0 < n)
      | Sequential \<Rightarrow> True)"

definition tree3 :: val where
  "tree3 = ListV
     [ListV [ListV [IntV 111, IntV 211, IntV 311, IntV 411],
             ListV [IntV 121, IntV 221, IntV 321, IntV 421],
             ListV [IntV 131, IntV 231, IntV 331, IntV 431]],
      ListV [ListV [IntV 112, IntV 212, IntV 312, IntV 412],
             ListV [IntV 122, IntV 222, IntV 322, IntV 422],
             ListV [IntV 132, IntV 232, IntV 332, IntV 432]]]"

definition combos1 :: "(string \<times> val list) list" where
  "combos1 = [(''a'', [IntV 1, IntV 2])]"

definition constants1 :: kwargs where
  "constants1 = [(''b'', IntV 20), (''c'', IntV 300)]"

definition echo_body :: pyfn where
  "echo_body kw =
     (case kw of
        [(name, v)] \<Rightarrow> if name = ''fn'' then Inr v else Inl (TypeError ''unexpected keyword argument'')
      | _ \<Rightarrow> Inl (TypeError ''missing or unexpected argument''))"

definition echo_fn :: pyfunc where
  "echo_fn =
     \<lparr>dunder_name = Some ''<lambda>'', key_attr = None, func_attr = None, fn_call = echo_body\<rparr>"


section \<open>Properties of unzip\<close>

declare zip_rows.simps [simp del]
declare unzipper.simps [simp del]




lemma unzip_1: "unzip its 1 = py_zip_star its"
  by (simp add: unzip_def, subst unzipper.simps, simp)


declare items.simps [simp del]







lemma zip_rows_length_le: "r \<in> set rows \<Longrightarrow> length (zip_rows rows) \<le> length r"
proof (induction rows arbitrary: r rule: zip_rows.induct)
  case (1 xss)
  show ?case
  proof (cases "xss = [] \<or> [] \<in> set xss")
    case True
    then show ?thesis by (subst zip_rows.simps) simp
  next
    case False
    with 1 have "r \<noteq> []" by auto
    have "length (zip_rows (map tl xss)) \<le> length (tl r)"
      using "1.IH" [OF False, of "tl r"] "1.prems" by simp
    with \<open>r \<noteq> []\<close> False show ?thesis
      by (subst zip_rows.simps) (cases r; simp)
  qed
qed

lemma zip_rows_length_ex: "rows \<noteq> [] \<Longrightarrow> \<exists>r\<in>set rows. length (zip_rows rows) = length r"
proof (induction rows rule: zip_rows.induct)
  case (1 xss)
  show ?case
  proof (cases "[] \<in> set xss")
    case True
    then show ?thesis by (subst zip_rows.simps) force
  next
    case False
    with "1.prems" have c: "\<not> (xss = [] \<or> [] \<in> set xss)" by simp
    from "1.IH" [OF c] "1.prems" obtain r where r: "r \<in> set xss"
      "length (zip_rows (map tl xss)) = length (tl r)" by auto
    from r(1) False have "r \<noteq> []" by auto
    have unf: "zip_rows xss = map hd xss # zip_rows (map tl xss)"
      using c by (subst zip_rows.simps) simp
    have "length (zip_rows xss) = length r"
      using unf r(2) \<open>r \<noteq> []\<close> by simp
    with r(1) show ?thesis by blast
  qed
qed

lemma zip_rows_nth:
  "j < length (zip_rows rows) \<Longrightarrow> zip_rows rows ! j = map (\<lambda>r. r ! j) rows"
proof (induction rows arbitrary: j rule: zip_rows.induct)
  case (1 xss)
  show ?case
  proof (cases "xss = [] \<or> [] \<in> set xss")
    case True
    with "1.prems" show ?thesis by (subst (asm) zip_rows.simps) simp
  next
    case False
    have unf: "zip_rows xss = map hd xss # zip_rows (map tl xss)"
      using False by (subst zip_rows.simps) simp
    have ne: "\<And>r. r \<in> set xss \<Longrightarrow> r \<noteq> []" using False by auto
    show ?thesis
    proof (cases j)
      case 0
      have "map hd xss = map (\<lambda>r. r ! 0) xss"
        by (rule map_cong [OF refl]) (simp add: hd_conv_nth ne)
      with 0 unf show ?thesis by simp
    next
      case (Suc i)
      with "1.prems" unf have "i < length (zip_rows (map tl xss))" by simp
      from "1.IH" [OF False this]
      have "zip_rows (map tl xss) ! i = map (\<lambda>r. tl r ! i) xss" by (simp add: comp_def)
      also have "\<dots> = map (\<lambda>r. r ! Suc i) xss"
      proof (rule map_cong [OF refl])
        fix r assume "r \<in> set xss"
        then have "r \<noteq> []" by (rule ne)
        then show "tl r ! i = r ! Suc i" by (cases r) simp_all
      qed
      finally show ?thesis using Suc unf by simp
    qed
  qed
qed

lemma zip_rows_length_Min:
  assumes "rows \<noteq> []"
  shows "length (zip_rows rows) = Min (length ` set rows)"
proof (rule sym, rule Min_eqI)
  show "finite (length ` set rows)" by simp
  show "\<And>y. y \<in> length ` set rows \<Longrightarrow> length (zip_rows rows) \<le> y"
    by (auto simp: zip_rows_length_le)
  show "length (zip_rows rows) \<in> length ` set rows"
    using zip_rows_length_ex [OF assms] by auto
qed

lemma mapE_py_iter_tuples: "mapE py_iter (map TupleV tss) = Inr tss"
  by (induction tss) auto

text \<open>
  Claim C10. For a depth-1 tree whose tuple leaves have differing arities, \<open>unzip\<close> does
  not raise: \<^verbatim>\<open>zip(*its)\<close> stops at the shortest leaf, so there are as many output
  trees as the minimum leaf arity, output \<open>j\<close> holds component \<open>j\<close> of every leaf, and the
  components beyond the minimum arity are dropped.
\<close>

theorem unzip_ragged_truncates:
  assumes "tss \<noteq> []"
  shows "\<exists>outs. unzip (ListV (map TupleV tss)) 1 = Inr (IterV outs) \<and>
           length outs = Min (length ` set tss) \<and>
           (\<forall>j<length outs. outs ! j = TupleV (map (\<lambda>t. t ! j) tss))"
proof -
  have "unzip (ListV (map TupleV tss)) 1 = Inr (IterV (map TupleV (zip_rows tss)))"
    by (simp add: unzip_1 py_zip_star_def py_zip_def mapE_py_iter_tuples)
  moreover have "length (map TupleV (zip_rows tss)) = Min (length ` set tss)"
    using zip_rows_length_Min [OF assms] by simp
  moreover have "\<forall>j<length (map TupleV (zip_rows tss)).
      map TupleV (zip_rows tss) ! j = TupleV (map (\<lambda>t. t ! j) tss)"
    by (simp add: zip_rows_nth)
  ultimately show ?thesis by blast
qed

theorem unzip_ragged_truncates_witness:
  "unzip (ListV [TupleV [IntV 1, BoolV True], TupleV [IntV 2], TupleV [IntV 3, BoolV False, NoneV]]) 1
     = Inr (IterV [TupleV [IntV 1, IntV 2, IntV 3]])"
proof -
  let ?tss = "[[IntV 1, BoolV True], [IntV 2], [IntV 3, BoolV False, NoneV]]"
  have ne: "?tss \<noteq> []" by simp
  from unzip_ragged_truncates [OF ne] obtain outs where
    o: "unzip (ListV (map TupleV ?tss)) 1 = Inr (IterV outs)"
       "length outs = Min (length ` set ?tss)"
       "\<forall>j<length outs. outs ! j = TupleV (map (\<lambda>t. t ! j) ?tss)"
    by blast
  from o(2) have len: "length outs = 1" by simp
  with o(3) have "outs ! 0 = TupleV [IntV 1, IntV 2, IntV 3]" by simp
  with len have "outs = [TupleV [IntV 1, IntV 2, IntV 3]]"
    by (cases outs) auto
  with o(1) show ?thesis by simp
qed









section \<open>Properties of the uniform result accessor\<close>

lemma bindM_simps [simp]:
  "bindM (returnM x) f = f x"
  "bindM (raiseM e) f = raiseM e"
  "bindM (liftE (Inr x)) f = f x"
  "bindM (liftE (Inl e)) f = raiseM e"
  by (simp_all add: bindM_def returnM_def raiseM_def liftE_def)

lemma bindM_apply:
  "bindM m f s = (case m s of (Inl e, s') \<Rightarrow> (Inl e, s') | (Inr x, s') \<Rightarrow> f x s')"
  by (simp add: bindM_def)

lemma try_result_then_get_first:
  "\<not> is_attribute_error (fst (future_result leaf s)) \<Longrightarrow>
   try_result_then_get leaf s = future_result leaf s"
  by (cases "future_result leaf s")
     (auto simp: try_result_then_get_def is_attribute_error_def split: sum.splits err.splits)

lemma future_result_no_capability:
  "(\<forall>h. leaf \<noteq> FutureV h) \<Longrightarrow> future_result leaf s = (Inl (AttributeError ''result''), s)"
  by (cases leaf) (auto simp: future_result_def raiseM_def)

lemma future_get_no_capability:
  "(\<forall>h. leaf \<noteq> AsyncResultV h) \<Longrightarrow> future_get leaf s = (Inl (AttributeError ''get''), s)"
  by (cases leaf) (auto simp: future_get_def raiseM_def)

lemma try_result_then_get_fallback:
  "(\<forall>h. leaf \<noteq> FutureV h) \<Longrightarrow> try_result_then_get leaf s = future_get leaf s"
  by (simp add: try_result_then_get_def future_result_no_capability)

lemma default_getter_value:
  "fst (default_getter pb leaf s) = fst (try_result_then_get leaf s)"
  by (cases "try_result_then_get leaf s")
     (auto simp: default_getter_def bindM_apply pbar_update_def returnM_def
           split: option.splits sum.splits)

lemma default_getter_failure:
  "try_result_then_get leaf s = (Inl e, s') \<Longrightarrow> default_getter pb leaf s = (Inl e, s')"
  by (auto simp: default_getter_def bindM_apply split: option.splits)

text \<open>
  Claim C7. The accessor built by \<open>default_getter\<close> (with or without a progress bar) first
  calls \<^verbatim>\<open>future.result()\<close>: whenever that call does not end in an attribute error its
  outcome is the accessor's outcome. On a leaf without the future-style accessor it falls back
  to \<^verbatim>\<open>future.get()\<close>, and on a leaf with neither accessor the attribute error of the
  second attempt, the one naming \<^verbatim>\<open>get\<close>, reaches the caller, with the state untouched.
\<close>

theorem default_getter_two_tries:
  "(\<not> is_attribute_error (fst (future_result leaf s)) \<longrightarrow>
      default_getter None leaf s = future_result leaf s \<and>
      fst (default_getter pb leaf s) = fst (future_result leaf s)) \<and>
   ((\<forall>h. leaf \<noteq> FutureV h) \<longrightarrow>
      default_getter None leaf s = future_get leaf s \<and>
      fst (default_getter pb leaf s) = fst (future_get leaf s)) \<and>
   ((\<forall>h. leaf \<noteq> FutureV h \<and> leaf \<noteq> AsyncResultV h) \<longrightarrow>
      default_getter pb leaf s = (Inl (AttributeError ''get''), s))"
proof (intro conjI impI)
  assume a: "\<not> is_attribute_error (fst (future_result leaf s))"
  show "default_getter None leaf s = future_result leaf s"
    using try_result_then_get_first [OF a] by (simp add: default_getter_def)
  show "fst (default_getter pb leaf s) = fst (future_result leaf s)"
    using try_result_then_get_first [OF a] by (simp add: default_getter_value)
next
  assume a: "\<forall>h. leaf \<noteq> FutureV h"
  show "default_getter None leaf s = future_get leaf s"
    using try_result_then_get_fallback [OF a] by (simp add: default_getter_def)
  show "fst (default_getter pb leaf s) = fst (future_get leaf s)"
    using try_result_then_get_fallback [OF a] by (simp add: default_getter_value)
next
  assume a: "\<forall>h. leaf \<noteq> FutureV h \<and> leaf \<noteq> AsyncResultV h"
  then have "try_result_then_get leaf s = (Inl (AttributeError ''get''), s)"
    by (simp add: try_result_then_get_fallback future_get_no_capability)
  then show "default_getter pb leaf s = (Inl (AttributeError ''get''), s)"
    by (rule default_getter_failure)
qed

theorem default_getter_two_tries_witness:
  "default_getter None (FutureV 0) world1 = (Inr (IntV 321), world1) \<and>
   default_getter None (AsyncResultV 1) world1 = (Inr (IntV 322), world1) \<and>
   default_getter (Some \<lparr>total = 2, disabled = False\<rparr>) (IntV 5) world1
     = (Inl (AttributeError ''get''), world1)"
proof -
  have r: "future_result (FutureV 0) world1 = (Inr (IntV 321), world1)"
    and g: "future_get (AsyncResultV 1) world1 = (Inr (IntV 322), world1)"
    by (simp_all add: future_result_def future_get_def world1_def)
  have "\<not> is_attribute_error (fst (future_result (FutureV 0) world1))"
    by (simp add: r is_attribute_error_def)
  with default_getter_two_tries [of "FutureV 0" world1 None]
  have "default_getter None (FutureV 0) world1 = (Inr (IntV 321), world1)"
    by (simp add: r)
  moreover have "default_getter None (AsyncResultV 1) world1 = (Inr (IntV 322), world1)"
    using default_getter_two_tries [of "AsyncResultV 1" world1 None] g by simp
  moreover from default_getter_two_tries [of "IntV 5" world1 "Some \<lparr>total = 2, disabled = False\<rparr>"]
  have "default_getter (Some \<lparr>total = 2, disabled = False\<rparr>) (IntV 5) world1
     = (Inl (AttributeError ''get''), world1)"
    by simp
  ultimately show ?thesis by simp
qed

section \<open>Properties of submission\<close>

lemma mapM_Nil_apply: "mapM f [] s = (Inr [], s)"
  by (simp add: returnM_def)

lemma mapM_Cons_apply:
  "mapM f (x # xs) s =
     (case f x s of
        (Inl e, s1) \<Rightarrow> (Inl e, s1)
      | (Inr y, s1) \<Rightarrow>
          (case mapM f xs s1 of
             (Inl e, s2) \<Rightarrow> (Inl e, s2)
           | (Inr ys, s2) \<Rightarrow> (Inr (y # ys), s2)))"
  by (simp add: bindM_def returnM_def split: prod.splits sum.splits)

lemma mapM_first_fails: "f x s = (Inl e, s') \<Longrightarrow> mapM f (x # xs) s = (Inl e, s')"
  by (simp add: bindM_def)

lemma bindM_fails: "m s = (Inl e, s') \<Longrightarrow> bindM m f s = (Inl e, s')"
  by (simp add: bindM_def)

lemma call_kwargs_collision:
  "arg \<in> fst ` set kwds \<Longrightarrow> call_kwargs kwds arg x = Inl dup_kw_error"
  by (simp add: call_kwargs_def dup_kw_error_def)

lemma call_kwargs_fresh:
  "arg \<notin> fst ` set kwds \<Longrightarrow> call_kwargs kwds arg x = Inr (kwds @ [(arg, x)])"
  by (simp add: call_kwargs_def)

lemma keys_dict_set: "fst ` set (dict_set kwds arg x) = insert arg (fst ` set kwds)"
  by (simp add: dict_set_def dom_update)

lemma dict_set_overwrites:
  "arg \<in> fst ` set kwds \<Longrightarrow>
   map_of (dict_set kwds arg x) = (map_of kwds)(arg \<mapsto> x) \<and>
   map fst (dict_set kwds arg x) = map fst kwds"
  by (simp add: dict_set_def update_conv' update_keys)

lemma dict_set_fresh: "arg \<notin> fst ` set kwds \<Longrightarrow> dict_set kwds arg x = kwds @ [(arg, x)]"
  by (induction kwds) (auto simp: dict_set_def)

lemma dict_set_twice: "dict_set (dict_set kwds arg c) arg x = dict_set kwds arg x"
  by (simp add: dict_set_def)

lemma nested_submit_outer:
  "rest \<noteq> [] \<Longrightarrow>
   nested_submit fn ((arg, inputs) # rest) kwds delay pool submitter =
     bindM (mapM (\<lambda>x. nested_submit fn rest (dict_set kwds arg x) delay pool submitter) inputs)
           (\<lambda>subs. returnM (ListV subs))"
  by (cases rest) (simp_all add: nested_submit.simps)

declare nested_submit.simps [simp del]

lemma innermost_collision_raises:
  "inputs \<noteq> [] \<Longrightarrow> arg \<in> fst ` set kwds \<Longrightarrow>
   nested_submit fn [(arg, inputs)] kwds delay pool submitter s = (Inl dup_kw_error, s)"
proof -
  assume ne: "inputs \<noteq> []" and col: "arg \<in> fst ` set kwds"
  then obtain x xs where inputs: "inputs = x # xs" by (cases inputs) auto
  have leaf: "bindM (liftE (call_kwargs kwds arg x)) op s = (Inl dup_kw_error, s)" for op :: callable
    by (simp add: call_kwargs_collision [OF col] raiseM_def)
  have m: "mapM (\<lambda>x. bindM (liftE (call_kwargs kwds arg x)) op) inputs s = (Inl dup_kw_error, s)"
    for op :: callable
    unfolding inputs by (rule mapM_first_fails) (rule leaf)
  show ?thesis
    by (cases pool; cases delay) (simp_all add: nested_submit.simps bindM_apply m)
qed

lemma collision_raises:
  "\<forall>(a, inputs) \<in> set (outer @ [(arg, inputs0)]). inputs \<noteq> [] \<Longrightarrow> arg \<in> fst ` set kwds \<Longrightarrow>
   nested_submit fn (outer @ [(arg, inputs0)]) kwds delay pool submitter s = (Inl dup_kw_error, s)"
proof (induction outer arbitrary: kwds)
  case Nil
  then show ?case by (simp add: innermost_collision_raises)
next
  case (Cons c outer)
  obtain a inputs where c: "c = (a, inputs)" by (cases c)
  from Cons.prems(1) c obtain x xs where inputs: "inputs = x # xs" by (cases inputs) auto
  have "nested_submit fn (outer @ [(arg, inputs0)]) (dict_set kwds a x) delay pool submitter s
          = (Inl dup_kw_error, s)"
    by (rule Cons.IH) (use Cons.prems in \<open>auto simp: keys_dict_set\<close>)
  then have "mapM (\<lambda>x. nested_submit fn (outer @ [(arg, inputs0)]) (dict_set kwds a x)
                          delay pool submitter) inputs s = (Inl dup_kw_error, s)"
    unfolding inputs by (rule mapM_first_fails)
  then show ?case
    unfolding c by (simp add: nested_submit_outer bindM_fails)
qed

text \<open>
  Claim C9. When a key of the constants mapping equals a combination argument name, the
  outcome depends on the position of that argument. At a non-innermost entry the
  mapping passed downward is \<^verbatim>\<open>{**kwds, arg: x}\<close>: the iterated value replaces the
  constant, the key set is unchanged, nothing is raised at that level, and the value the
  constant had plays no part in the result. At the innermost entry the call is
  \<^verbatim>\<open>fn(**kwds, **{arg: x})\<close>: every invocation raises the duplicate-keyword error, and,
  the value sequences being non-empty, the whole submission raises it with the state
  untouched, in every mode.
\<close>

theorem constant_name_collision:
  assumes "arg \<in> fst ` set kwds"
  shows "(rest \<noteq> [] \<longrightarrow>
            nested_submit fn ((arg, inputs) # rest) kwds delay pool submitter =
              bindM (mapM (\<lambda>x. nested_submit fn rest (dict_set kwds arg x) delay pool submitter)
                       inputs)
                    (\<lambda>subs. returnM (ListV subs)) \<and>
            (\<forall>x. map_of (dict_set kwds arg x) = (map_of kwds)(arg \<mapsto> x) \<and>
                 map fst (dict_set kwds arg x) = map fst kwds) \<and>
            (\<forall>c. nested_submit fn ((arg, inputs) # rest) (dict_set kwds arg c) delay pool submitter
                 = nested_submit fn ((arg, inputs) # rest) kwds delay pool submitter)) \<and>
         (\<forall>x. call_kwargs kwds arg x = Inl dup_kw_error) \<and>
         ((\<forall>(a, inputs) \<in> set (outer @ [(arg, inputs)]). inputs \<noteq> []) \<longrightarrow>
            nested_submit fn (outer @ [(arg, inputs)]) kwds delay pool submitter s
              = (Inl dup_kw_error, s))"
  using assms
  by (auto simp: nested_submit_outer dict_set_overwrites dict_set_twice call_kwargs_collision
           intro!: collision_raises)


theorem constant_name_collision_witness:
  "''a'' \<in> fst ` set [(''a'', IntV 99), (''c'', IntV 300)] \<and>
   map_of (dict_set [(''a'', IntV 99), (''c'', IntV 300)] ''a'' (IntV 1)) ''a'' = Some (IntV 1) \<and>
   map fst (dict_set [(''a'', IntV 99), (''c'', IntV 300)] ''a'' (IntV 1)) = [''a'', ''c''] \<and>
   nested_submit (lift_fn (fn_call foo3_scalar)) [(''a'', [IntV 1, IntV 2]), (''b'', [IntV 10])]
       [(''a'', IntV 99), (''c'', IntV 300)] False None default_submitter world0
     = (Inr (ListV [ListV [IntV 311], ListV [IntV 312]]), world0) \<and>
   nested_submit (lift_fn (fn_call foo3_scalar)) [(''b'', [IntV 10]), (''a'', [IntV 1, IntV 2])]
       [(''a'', IntV 99), (''c'', IntV 300)] False None default_submitter world0
     = (Inl dup_kw_error, world0)"
proof -
  let ?kwds = "[(''a'', IntV 99), (''c'', IntV 300)]"
  have k: "''a'' \<in> fst ` set ?kwds" by simp
  note inst = constant_name_collision [OF k, of "[(''b'', [IntV 10])]" "lift_fn (fn_call foo3_scalar)"
      "[IntV 1, IntV 2]" False None default_submitter "[(''b'', [IntV 10])]" world0]
  have over: "map_of (dict_set ?kwds ''a'' (IntV 1)) ''a'' = Some (IntV 1)"
    "map fst (dict_set ?kwds ''a'' (IntV 1)) = [''a'', ''c'']"
    using inst by simp_all
  have inner: "nested_submit (lift_fn (fn_call foo3_scalar)) [(''b'', [IntV 10]), (''a'', [IntV 1, IntV 2])]
       ?kwds False None default_submitter world0 = (Inl dup_kw_error, world0)"
    using inst by simp
  have outer: "nested_submit (lift_fn (fn_call foo3_scalar)) [(''a'', [IntV 1, IntV 2]), (''b'', [IntV 10])]
       ?kwds False None default_submitter world0
     = (Inr (ListV [ListV [IntV 311], ListV [IntV 312]]), world0)"
    by (simp add: nested_submit.simps dict_set_def call_kwargs_def lift_fn_def foo3_scalar_def foo3_body_def
          bindM_apply returnM_def liftE_def)
  show ?thesis using k over inner outer by simp
qed

declare mapM.simps(2) [simp del]

lemma nested_submit_inner:
  "nested_submit fn [(arg, inputs)] kwds delay pool submitter =
     bindM (mapM (\<lambda>x. bindM (liftE (call_kwargs kwds arg x)) (leaf_op fn delay pool submitter))
              inputs)
           (\<lambda>leaves. returnM (ListV leaves))"
  by (cases pool; cases delay) (simp_all add: nested_submit.simps leaf_op_def)

lemma bindM_Inr:
  "bindM m f s = (Inr y, s') \<Longrightarrow> \<exists>x s1. m s = (Inr x, s1) \<and> f x s1 = (Inr y, s')"
  by (cases "m s") (auto simp: bindM_apply split: sum.splits)

lemma bindM_return_Inr:
  "bindM m (\<lambda>x. returnM (g x)) s = (Inr y, s') \<Longrightarrow> \<exists>x. m s = (Inr x, s') \<and> y = g x"
  by (cases "m s") (auto simp: bindM_apply returnM_def split: sum.splits)

lemma mapM_Inr_nth:
  "mapM f xs s = (Inr ys, s') \<Longrightarrow>
   length ys = length xs \<and> (\<forall>i<length xs. \<exists>s1 s2. f (xs ! i) s1 = (Inr (ys ! i), s2))"
proof (induction xs arbitrary: s ys)
  case Nil
  then show ?case by (simp add: returnM_def)
next
  case (Cons x xs)
  from Cons.prems obtain y s1 ys' where
    y: "f x s = (Inr y, s1)" and r: "mapM f xs s1 = (Inr ys', s')" and ys: "ys = y # ys'"
    by (auto simp: mapM_Cons_apply split: prod.splits sum.splits)
  from Cons.IH [OF r] have ih: "length ys' = length xs"
    "\<forall>i<length xs. \<exists>s1 s2. f (xs ! i) s1 = (Inr (ys' ! i), s2)" by auto
  have "\<exists>s1 s2. f ((x # xs) ! i) s1 = (Inr (ys ! i), s2)" if "i < length (x # xs)" for i
  proof (cases i)
    case 0
    with y ys show ?thesis by auto
  next
    case (Suc j)
    with that ih(2) ys show ?thesis by simp
  qed
  with ih(1) ys show ?case by simp
qed

lemma mapM_total:
  "(\<And>x s. x \<in> set xs \<Longrightarrow> \<exists>y s'. f x s = (Inr y, s')) \<Longrightarrow> \<exists>ys s'. mapM f xs s = (Inr ys, s')"
proof (induction xs arbitrary: s)
  case Nil
  show ?case by (simp add: returnM_def)
next
  case (Cons x xs)
  from Cons.prems [of x s] obtain y s1 where y: "f x s = (Inr y, s1)" by auto
  from Cons.IH [of s1] Cons.prems obtain ys s2 where "mapM f xs s1 = (Inr ys, s2)" by auto
  with y show ?case by (simp add: mapM_Cons_apply)
qed

lemma valid_index_Cons:
  "valid_index (dims ((arg, inputs) # rest)) idx \<longleftrightarrow>
     (\<exists>i idx'. idx = i # idx' \<and> i < length inputs \<and> valid_index (dims rest) idx')"
  by (cases idx) (auto simp: valid_index_def dims_def)

lemma valid_index_single:
  "valid_index (dims [(arg, inputs)]) idx \<longleftrightarrow> (\<exists>i. idx = [i] \<and> i < length inputs)"
  by (auto simp: valid_index_Cons) (auto simp: valid_index_def dims_def)

lemma nested_submit_has_shape:
  "combos \<noteq> [] \<Longrightarrow> nested_submit fn combos kwds delay pool submitter s = (Inr t, s') \<Longrightarrow>
   has_shape (dims combos) t"
proof (induction combos arbitrary: kwds s s' t rule: list_nonempty_induct)
  case (single c)
  obtain arg inputs where c: "c = (arg, inputs)" by (cases c)
  from single obtain leaves where
    "mapM (\<lambda>x. bindM (liftE (call_kwargs kwds arg x)) (leaf_op fn delay pool submitter)) inputs s
       = (Inr leaves, s')" and t: "t = ListV leaves"
    unfolding c nested_submit_inner by (blast dest: bindM_return_Inr)
  from mapM_Inr_nth [OF this(1)] have "length leaves = length inputs" by simp
  then show ?case by (simp add: c t dims_def list_all_iff)
next
  case (cons c rest)
  obtain arg inputs where c: "c = (arg, inputs)" by (cases c)
  from cons.prems obtain subs where
    m: "mapM (\<lambda>x. nested_submit fn rest (dict_set kwds arg x) delay pool submitter) inputs s
       = (Inr subs, s')" and t: "t = ListV subs"
    unfolding c nested_submit_outer [OF cons.hyps] by (blast dest: bindM_return_Inr)
  from mapM_Inr_nth [OF m] have len: "length subs = length inputs"
    and each: "\<forall>i<length inputs. \<exists>s1 s2.
        nested_submit fn rest (dict_set kwds arg (inputs ! i)) delay pool submitter s1
          = (Inr (subs ! i), s2)"
    by auto
  have "has_shape (dims rest) sub" if "sub \<in> set subs" for sub
  proof -
    from that obtain i where "i < length subs" "sub = subs ! i" by (auto simp: in_set_conv_nth)
    with each len cons.IH show ?thesis by metis
  qed
  then show ?case by (simp add: c t len dims_def list_all_iff)
qed

lemma nested_submit_returns:
  "combos \<noteq> [] \<Longrightarrow> distinct (map fst combos) \<Longrightarrow> fst ` set combos \<inter> fst ` set kwds = {} \<Longrightarrow>
   (\<And>idx s1. valid_index (dims combos) idx \<Longrightarrow>
      \<exists>leaf s2. leaf_op fn delay pool submitter (kwds @ bound_args combos idx) s1 = (Inr leaf, s2)) \<Longrightarrow>
   \<exists>t s'. nested_submit fn combos kwds delay pool submitter s = (Inr t, s')"
proof (induction combos arbitrary: kwds s rule: list_nonempty_induct)
  case (single c)
  obtain arg inputs where c: "c = (arg, inputs)" by (cases c)
  have fresh: "arg \<notin> fst ` set kwds" using single.prems(2) c by auto
  have "\<exists>y s'. bindM (liftE (call_kwargs kwds arg x)) (leaf_op fn delay pool submitter) s1
           = (Inr y, s')" if "x \<in> set inputs" for x s1
  proof -
    from that obtain i where i: "i < length inputs" "x = inputs ! i"
      by (auto simp: in_set_conv_nth)
    then have "valid_index (dims [(arg, inputs)]) [i]" by (simp add: valid_index_single)
    from single.prems(3) [unfolded c, OF this, of s1] i(2) show ?thesis
      by (simp add: call_kwargs_fresh [OF fresh] bound_args_def)
  qed
  from mapM_total [of inputs "\<lambda>x. bindM (liftE (call_kwargs kwds arg x))
      (leaf_op fn delay pool submitter)" s, OF this] obtain ys s' where
    "mapM (\<lambda>x. bindM (liftE (call_kwargs kwds arg x)) (leaf_op fn delay pool submitter)) inputs s
       = (Inr ys, s')" by blast
  then show ?case
    by (simp add: c nested_submit_inner bindM_apply returnM_def)
next
  case (cons c rest)
  obtain arg inputs where c: "c = (arg, inputs)" by (cases c)
  have fresh: "arg \<notin> fst ` set kwds" using cons.prems(2) c by auto
  have d: "distinct (map fst rest)" and n: "arg \<notin> fst ` set rest"
    using cons.prems(1) c by auto
  have "\<exists>y s'. nested_submit fn rest (dict_set kwds arg x) delay pool submitter s1 = (Inr y, s')"
    if "x \<in> set inputs" for x s1
  proof -
    from that obtain i where i: "i < length inputs" "x = inputs ! i"
      by (auto simp: in_set_conv_nth)
    have ds: "dict_set kwds arg x = kwds @ [(arg, x)]"
      by (rule dict_set_fresh [OF fresh])
    have disj: "fst ` set rest \<inter> fst ` set (kwds @ [(arg, x)]) = {}"
      using cons.prems(2) n c by auto
    have "\<exists>leaf s2. leaf_op fn delay pool submitter ((kwds @ [(arg, x)]) @ bound_args rest idx') s3
             = (Inr leaf, s2)" if "valid_index (dims rest) idx'" for idx' s3
    proof -
      from that i(1) have "valid_index (dims ((arg, inputs) # rest)) (i # idx')"
        by (simp add: valid_index_Cons)
      from cons.prems(3) [unfolded c, OF this, of s3] i(2) show ?thesis
        by (simp add: bound_args_def)
    qed
    from cons.IH [OF d disj this] show ?thesis
      unfolding ds by blast
  qed
  from mapM_total [of inputs "\<lambda>x. nested_submit fn rest (dict_set kwds arg x) delay pool
      submitter" s, OF this] obtain ys s' where
    "mapM (\<lambda>x. nested_submit fn rest (dict_set kwds arg x) delay pool submitter) inputs s
       = (Inr ys, s')" by blast
  then show ?case
    by (simp add: c nested_submit_outer [OF cons.hyps] bindM_apply returnM_def)
qed


section \<open>Properties of collection\<close>

lemma bindM_assoc: "bindM (bindM m f) g = bindM m (\<lambda>x. bindM (f x) g)"
  by (rule ext) (simp add: bindM_def split: prod.splits sum.splits)

lemma bindM_returnM_right: "bindM m returnM = m"
  by (rule ext) (simp add: bindM_def returnM_def split: prod.splits sum.splits)

lemma bindM_cong_set:
  "(\<And>x. f x = g x) \<Longrightarrow> bindM m f = bindM m g"
  by presburger

lemma mapM_append:
  "mapM g (xs @ ys) = bindM (mapM g xs) (\<lambda>as. bindM (mapM g ys) (\<lambda>bs. returnM (as @ bs)))"
proof (induction xs)
  case Nil
  show ?case by (simp add: bindM_returnM_right)
next
  case (Cons x xs)
  show ?case
    by (simp add: mapM.simps(2) Cons.IH bindM_assoc)
qed

lemma mapM_concat:
  "mapM g (concat (map L xs)) =
     bindM (mapM (\<lambda>x. mapM g (L x)) xs) (\<lambda>yss. returnM (concat yss))"
proof (induction xs)
  case Nil
  show ?case by simp
next
  case (Cons x xs)
  show ?case
    by (simp add: mapM.simps(2) mapM_append Cons.IH bindM_assoc)
qed

lemma mapM_bind_return:
  "mapM (\<lambda>x. bindM (h x) (\<lambda>y. returnM (k y))) xs =
     bindM (mapM h xs) (\<lambda>ys. returnM (map k ys))"
proof (induction xs)
  case Nil
  show ?case by simp
next
  case (Cons x xs)
  show ?case
    by (simp add: mapM.simps(2) Cons.IH bindM_assoc)
qed

declare nested_get.simps [simp del]

lemma nested_get_ListV:
  "nested_get (ListV futs) ndim getter =
     bindM (if ndim = 1 then mapM getter futs
            else mapM (\<lambda>fut. nested_get fut (ndim - 1) getter) futs)
           (\<lambda>rs. returnM (ListV rs))"
  by (simp add: nested_get.simps)

lemma has_shape_ConsD:
  "has_shape (n # ns) t \<Longrightarrow> \<exists>xs. t = ListV xs \<and> length xs = n \<and> (\<forall>x\<in>set xs. has_shape ns x)"
  by (cases t) (auto simp: list_all_iff)

lemma has_shape_ListV [simp]:
  "has_shape (n # ns) (ListV xs) \<longleftrightarrow> length xs = n \<and> (\<forall>x\<in>set xs. has_shape ns x)"
  by (simp add: list_all_iff)

declare has_shape.simps(2) [simp del]

lemma items_ListV [simp]: "items (ListV xs) = xs"
  by (simp add: items.simps)

lemma nested_get_visits_leaves:
  "ns \<noteq> [] \<Longrightarrow> has_shape ns t \<Longrightarrow>
   bindM (nested_get t (int (length ns)) getter) (\<lambda>t'. returnM (leaves_at (length ns) t'))
     = mapM getter (leaves_at (length ns) t)"
proof (induction ns arbitrary: t rule: list_nonempty_induct)
  case (single n)
  then obtain xs where t: "t = ListV xs" using has_shape_ConsD [of n "[]" t] by auto
  have c: "concat (map (leaves_at 0) ys) = ys" for ys :: "val list"
    by (induction ys) auto
  show ?case
    by (simp add: t c nested_get_ListV bindM_assoc bindM_returnM_right)
next
  case (cons n ns)
  from cons.prems obtain xs where t: "t = ListV xs" and sub: "\<forall>x\<in>set xs. has_shape ns x"
    using has_shape_ConsD [of n ns t] by auto
  let ?m = "length ns"
  have m: "int (length (n # ns)) \<noteq> 1" "int (length (n # ns)) - 1 = int ?m"
    using cons.hyps by (cases ns; simp)+
  have "mapM getter (leaves_at (Suc ?m) t)
          = bindM (mapM (\<lambda>x. mapM getter (leaves_at ?m x)) xs) (\<lambda>yss. returnM (concat yss))"
    by (simp add: t mapM_concat)
  also have "mapM (\<lambda>x. mapM getter (leaves_at ?m x)) xs
          = mapM (\<lambda>x. bindM (nested_get x (int ?m) getter) (\<lambda>t'. returnM (leaves_at ?m t'))) xs"
    by (rule mapM_cong [OF refl]) (simp add: cons.IH sub)
  also have "\<dots> = bindM (mapM (\<lambda>x. nested_get x (int ?m) getter) xs)
                       (\<lambda>ys. returnM (map (leaves_at ?m) ys))"
    by (rule mapM_bind_return)
  finally show ?case
    using m by (simp add: t nested_get_ListV bindM_assoc)
qed

lemma sum_list_all_equal:
  "\<forall>x\<in>set xs. f x = (c::nat) \<Longrightarrow> sum_list (map f xs) = length xs * c"
  by (induction xs) auto

lemma length_leaves_at: "has_shape ns t \<Longrightarrow> length (leaves_at (length ns) t) = prod_list ns"
proof (induction ns arbitrary: t)
  case Nil
  show ?case by simp
next
  case (Cons n ns)
  then obtain xs where t: "t = ListV xs" and len: "length xs = n"
    and sub: "\<forall>x\<in>set xs. has_shape ns x"
    using has_shape_ConsD [of n ns t] by auto
  have "sum_list (map (\<lambda>x. length (leaves_at (length ns) x)) xs) = length xs * prod_list ns"
    by (rule sum_list_all_equal) (simp add: Cons.IH sub)
  then show ?case
    by (simp add: t len length_concat comp_def)
qed

lemma nested_get_result:
  "ns \<noteq> [] \<Longrightarrow> has_shape ns t \<Longrightarrow> nested_get t (int (length ns)) getter s = (Inr t', s') \<Longrightarrow>
   has_shape ns t' \<and>
   (\<forall>idx. valid_index ns idx \<longrightarrow>
      (\<exists>leaf r s1 s2. tree_at t idx = Some leaf \<and> tree_at t' idx = Some r \<and>
         getter leaf s1 = (Inr r, s2)))"
proof (induction ns arbitrary: t t' s s' rule: list_nonempty_induct)
  case (single n)
  from single.prems(1) obtain xs where t: "t = ListV xs" and len: "length xs = n"
    using has_shape_ConsD [of n "[]" t] by auto
  from single.prems(2) obtain rs where m: "mapM getter xs s = (Inr rs, s')" and t': "t' = ListV rs"
    unfolding t by (auto simp: nested_get_ListV dest!: bindM_return_Inr)
  from mapM_Inr_nth [OF m] have l: "length rs = length xs"
    and each: "\<forall>i<length xs. \<exists>s1 s2. getter (xs ! i) s1 = (Inr (rs ! i), s2)" by auto
  have "\<exists>leaf r s1 s2. tree_at t idx = Some leaf \<and> tree_at t' idx = Some r \<and>
         getter leaf s1 = (Inr r, s2)" if "valid_index [n] idx" for idx
  proof -
    from that obtain i where idx: "idx = [i]" "i < n"
      by (cases idx) (auto simp: valid_index_def)
    with each len l show ?thesis by (simp add: t t')
  qed
  then show ?case by (simp add: t' l len)
next
  case (cons n ns)
  from cons.prems(1) obtain xs where t: "t = ListV xs" and len: "length xs = n"
    and sub: "\<forall>x\<in>set xs. has_shape ns x"
    using has_shape_ConsD [of n ns t] by auto
  let ?m = "length ns"
  have m: "int (length (n # ns)) \<noteq> 1" "int (length (n # ns)) - 1 = int ?m"
    using cons.hyps by (cases ns; simp)+
  from cons.prems(2) obtain rs where
    mp: "mapM (\<lambda>fut. nested_get fut (int ?m) getter) xs s = (Inr rs, s')" and t': "t' = ListV rs"
    unfolding t using m by (auto simp: nested_get_ListV dest!: bindM_return_Inr)
  from mapM_Inr_nth [OF mp] have l: "length rs = length xs"
    and each: "\<forall>i<length xs. \<exists>s1 s2. nested_get (xs ! i) (int ?m) getter s1 = (Inr (rs ! i), s2)"
    by auto
  have ih: "has_shape ns (rs ! i) \<and>
     (\<forall>idx. valid_index ns idx \<longrightarrow>
        (\<exists>leaf r s1 s2. tree_at (xs ! i) idx = Some leaf \<and> tree_at (rs ! i) idx = Some r \<and>
           getter leaf s1 = (Inr r, s2)))" if "i < length xs" for i
  proof -
    from each that obtain s1 s2 where
      "nested_get (xs ! i) (int ?m) getter s1 = (Inr (rs ! i), s2)" by auto
    moreover from sub that have "has_shape ns (xs ! i)" by simp
    ultimately show ?thesis by (rule cons.IH [rotated])
  qed
  have shape: "has_shape (n # ns) t'"
    using ih l len by (auto simp: t' in_set_conv_nth)
  have "\<exists>leaf r s1 s2. tree_at t idx = Some leaf \<and> tree_at t' idx = Some r \<and>
         getter leaf s1 = (Inr r, s2)" if "valid_index (n # ns) idx" for idx
  proof -
    from that obtain i idx' where idx: "idx = i # idx'" "i < n" "valid_index ns idx'"
      by (cases idx) (auto simp: valid_index_def)
    with ih [of i] len l show ?thesis by (simp add: t t')
  qed
  with shape show ?case by simp
qed

lemma nested_get_returns:
  assumes "ns \<noteq> []" "has_shape ns t"
    and "mapM getter (leaves_at (length ns) t) s = (Inr rs, s')"
  shows "\<exists>t'. nested_get t (int (length ns)) getter s = (Inr t', s') \<and>
              leaves_at (length ns) t' = rs"
proof -
  from nested_get_visits_leaves [OF assms(1,2), of getter] assms(3)
  have "bindM (nested_get t (int (length ns)) getter)
          (\<lambda>t'. returnM (leaves_at (length ns) t')) s = (Inr rs, s')"
    by simp
  from bindM_return_Inr [OF this] show ?thesis by auto
qed


text \<open>
  Claim C2. For a pending-work tree of the Cartesian-product shape \<open>ns\<close> and the depth
  argument \<open>length ns\<close>, \<open>nested_get\<close> runs the getter on the leaves of the tree, each
  once and in nested traversal order: as a stateful computation, collecting and then
  reading off the leaves of the result is the same as mapping the getter over the
  leaves of the input, so the effects, the first failure and the final state agree. There
  are as many leaves as the product of the dimensions. A returned tree has the shape of
  the input and holds at every index the getter's result on the input's leaf there; and
  \<open>nested_get\<close> returns whenever the getter succeeds on the leaves in turn.
\<close>

theorem nested_get_each_leaf_once:
  assumes "ns \<noteq> []" and "has_shape ns t"
  shows "bindM (nested_get t (int (length ns)) getter) (\<lambda>t'. returnM (leaves_at (length ns) t'))
           = mapM getter (leaves_at (length ns) t) \<and>
         length (leaves_at (length ns) t) = prod_list ns \<and>
         (\<forall>s t' s'. nested_get t (int (length ns)) getter s = (Inr t', s') \<longrightarrow>
            has_shape ns t' \<and>
            (\<forall>idx. valid_index ns idx \<longrightarrow>
               (\<exists>leaf r s1 s2. tree_at t idx = Some leaf \<and> tree_at t' idx = Some r \<and>
                  getter leaf s1 = (Inr r, s2)))) \<and>
         (\<forall>s rs s'. mapM getter (leaves_at (length ns) t) s = (Inr rs, s') \<longrightarrow>
            (\<exists>t'. nested_get t (int (length ns)) getter s = (Inr t', s') \<and>
                  leaves_at (length ns) t' = rs))"
proof (intro conjI allI impI)
  show "bindM (nested_get t (int (length ns)) getter) (\<lambda>t'. returnM (leaves_at (length ns) t'))
           = mapM getter (leaves_at (length ns) t)"
    by (rule nested_get_visits_leaves [OF assms])
  show "length (leaves_at (length ns) t) = prod_list ns"
    by (rule length_leaves_at [OF assms(2)])
next
  fix s t' s'
  assume run: "nested_get t (int (length ns)) getter s = (Inr t', s')"
  note r = nested_get_result [OF assms run]
  show "has_shape ns t'" by (rule r [THEN conjunct1])
  fix idx
  assume "valid_index ns idx"
  with r show "\<exists>leaf r s1 s2. tree_at t idx = Some leaf \<and> tree_at t' idx = Some r \<and>
                  getter leaf s1 = (Inr r, s2)"
    by simp
next
  fix s rs s'
  assume "mapM getter (leaves_at (length ns) t) s = (Inr rs, s')"
  then show "\<exists>t'. nested_get t (int (length ns)) getter s = (Inr t', s') \<and>
                  leaves_at (length ns) t' = rs"
    by (rule nested_get_returns [OF assms])
qed

theorem nested_get_each_leaf_once_witness:
  "has_shape [1, 2] futures1 \<and>
   length (leaves_at 2 futures1) = 1 * 2 \<and>
   (\<exists>t'. nested_get futures1 2 (default_getter (Some \<lparr>total = 2, disabled = False\<rparr>)) world1
            = (Inr t', world1\<lparr>progress := 2\<rparr>) \<and>
         has_shape [1, 2] t' \<and>
         leaves_at 2 t' = [IntV 321, IntV 322])"
proof -
  let ?getter = "default_getter (Some \<lparr>total = 2, disabled = False\<rparr>)"
  have sh: "has_shape [1, 2] futures1"
    by (simp add: futures1_def)
  have ne: "[1, 2 :: nat] \<noteq> []" by simp
  note inst = nested_get_each_leaf_once [OF ne sh, of ?getter]
  have l: "leaves_at 2 futures1 = [FutureV 0, FutureV 1]"
    by (simp add: futures1_def numeral_2_eq_2)
  have m: "mapM ?getter (leaves_at (length [1, 2 :: nat]) futures1) world1
             = (Inr [IntV 321, IntV 322], world1\<lparr>progress := 2\<rparr>)"
    by code_simp
  from inst [THEN conjunct2, THEN conjunct2, THEN conjunct2, rule_format, OF m]
  obtain t' where t': "nested_get futures1 (int (length [1, 2 :: nat])) ?getter world1
        = (Inr t', world1\<lparr>progress := 2\<rparr>)" "leaves_at (length [1, 2 :: nat]) t' = [IntV 321, IntV 322]"
    by auto
  from inst [THEN conjunct2, THEN conjunct2, THEN conjunct1, rule_format, OF t'(1)]
  have "has_shape [1, 2] t'" by simp
  with sh l t' show ?thesis by (auto simp: numeral_2_eq_2)
qed

section \<open>Properties of the core runner\<close>

lemma liftE_apply: "liftE r s = (r, s)"
  by (simp add: liftE_def)

lemma mapM_liftE_apply: "mapM (\<lambda>x. liftE (g x)) xs s = (mapE g xs, s)"
  by (induction xs arbitrary: s)
     (simp_all add: mapM_Cons_apply liftE_def returnM_def split: sum.splits)

lemma mapM_liftE: "mapM (\<lambda>x. liftE (g x)) xs = liftE (mapE g xs)"
  by (rule ext) (simp add: mapM_liftE_apply liftE_apply)

lemma bindM_liftE_liftE:
  "bindM (liftE r) (\<lambda>x. liftE (k x)) = liftE (case r of Inl e \<Rightarrow> Inl e | Inr x \<Rightarrow> k x)"
  by (rule ext) (simp add: bindM_apply liftE_def split: sum.splits)

lemma bindM_liftE_return:
  "bindM (liftE r) (\<lambda>x. returnM (k x)) = liftE (case r of Inl e \<Rightarrow> Inl e | Inr x \<Rightarrow> Inr (k x))"
  by (rule ext) (simp add: bindM_apply liftE_def returnM_def split: sum.splits)

lemma nested_submit_pure:
  "leaf_op fn delay pool submitter = lift_fn g \<Longrightarrow>
   nested_submit fn combos kwds delay pool submitter = liftE (pure_tree g combos kwds)"
proof (induction g combos kwds rule: pure_tree.induct)
  case (1 g kwds)
  show ?case by (simp add: nested_submit.simps raiseM_def liftE_def)
next
  case (2 g arg inputs kwds)
  have "(\<lambda>x. bindM (liftE (call_kwargs kwds arg x)) (lift_fn g))
          = (\<lambda>x. liftE (case call_kwargs kwds arg x of Inl e \<Rightarrow> Inl e | Inr kw \<Rightarrow> g kw))"
    by (simp add: lift_fn_def bindM_liftE_liftE)
  then show ?case
    using 2 by (simp add: nested_submit_inner mapM_liftE bindM_liftE_return)
next
  case (3 g arg inputs c combos kwds)
  have "mapM (\<lambda>x. nested_submit fn (c # combos) (dict_set kwds arg x) delay pool submitter) inputs
          = mapM (\<lambda>x. liftE (pure_tree g (c # combos) (dict_set kwds arg x))) inputs"
    by (rule mapM_cong [OF refl]) (rule "3.IH" [OF _ "3.prems"])
  then show ?case
    by (simp add: nested_submit_outer mapM_liftE bindM_liftE_return)
qed

lemma leaf_op_delayed: "leaf_op fn True None submitter = lift_fn delayed_leaf"
  by (rule ext) (simp add: leaf_op_def py_delayed_def lift_fn_def delayed_leaf_def returnM_def liftE_def)

lemma leaf_op_direct: "leaf_op (lift_fn f) False None submitter = lift_fn f"
  by (simp add: leaf_op_def)

lemma mapE_total: "(\<And>x. x \<in> set xs \<Longrightarrow> \<exists>y. g x = Inr y) \<Longrightarrow> \<exists>ys. mapE g xs = Inr ys"
proof (induction xs)
  case Nil
  show ?case by simp
next
  case (Cons x xs)
  from Cons.prems [of x] obtain y where "g x = Inr y" by auto
  moreover from Cons.IH Cons.prems obtain ys where "mapE g xs = Inr ys" by auto
  ultimately show ?case by simp
qed

lemma pure_tree_delayed_total:
  "combos \<noteq> [] \<Longrightarrow> distinct (map fst combos) \<Longrightarrow> fst ` set combos \<inter> fst ` set kwds = {} \<Longrightarrow>
   \<exists>jobs. pure_tree delayed_leaf combos kwds = Inr jobs"
proof (induction combos arbitrary: kwds rule: list_nonempty_induct)
  case (single c)
  obtain arg inputs where c: "c = (arg, inputs)" by (cases c)
  have "arg \<notin> fst ` set kwds" using single.prems(2) c by auto
  then have "\<exists>ys. mapE (\<lambda>x. case call_kwargs kwds arg x of Inl e \<Rightarrow> Inl e
                               | Inr kw \<Rightarrow> delayed_leaf kw) inputs = Inr ys"
    by (intro mapE_total) (simp add: call_kwargs_fresh delayed_leaf_def)
  then show ?case by (auto simp: c)
next
  case (cons c rest)
  obtain arg inputs where c: "c = (arg, inputs)" by (cases c)
  have d: "distinct (map fst rest)" and n: "arg \<notin> fst ` set rest"
    using cons.prems(1) c by auto
  have "\<exists>y. pure_tree delayed_leaf rest (dict_set kwds arg x) = Inr y" for x
    by (rule cons.IH [OF d]) (use cons.prems(2) n c in \<open>auto simp: keys_dict_set\<close>)
  then have "\<exists>ys. mapE (\<lambda>x. pure_tree delayed_leaf rest (dict_set kwds arg x)) inputs = Inr ys"
    by (intro mapE_total) simp
  then show ?case
    using cons.hyps by (cases rest) (auto simp: c)
qed

lemma prod_it_dims: "combos \<noteq> [] \<Longrightarrow> \<exists>n. prod_it (map (\<lambda>(a, x). length x) combos) = Inr n"
  by (cases combos) (auto simp: prod_it_def)

lemma nested_submit_deferred:
  "nested_submit fn combos kwds True None submitter = liftE (pure_tree delayed_leaf combos kwds)"
  by (rule nested_submit_pure [OF leaf_op_delayed])

lemma scheduler_ignored_with_pool:
  "combo_runner_core ev fn combos constants split parallel num_workers scheduler (Some p)
     hide_progbar
   = combo_runner_core ev fn combos constants split parallel num_workers scheduler' (Some p)
       hide_progbar"
  by (simp add: combo_runner_core_def)

lemma scheduler_ignored_with_mpi:
  "combo_runner_core ev fn combos constants split (ParStr ''mpi'') num_workers scheduler None
     hide_progbar
   = combo_runner_core ev fn combos constants split (ParStr ''mpi'') num_workers scheduler' None
       hide_progbar"
  by (simp add: combo_runner_core_def)

lemma unknown_scheduler_run:
  assumes "combos \<noteq> []" and "parallel \<noteq> ParStr ''mpi''"
    and "name \<noteq> []" and "map_of (scheduler_table ev) name = None"
  shows "combo_runner_core ev fn combos constants split parallel num_workers
           (Some (SchedName name)) None hide_progbar s
         = (case get_fn_name fn of
              Inl e \<Rightarrow> (Inl e, s)
            | Inr fn_name \<Rightarrow>
                (case pure_tree delayed_leaf combos constants of
                   Inl e \<Rightarrow> (Inl e, s)
                 | Inr jobs \<Rightarrow> (Inl (ValueError ''unrecognized scheduler''), s)))"
proof -
  from prod_it_dims [OF assms(1)] obtain n where
    n: "prod_it (map (\<lambda>(a, x). length x) combos) = Inr n" by auto
  show ?thesis
    using assms(2-4)
    by (simp add: combo_runner_core_def n nested_submit_deferred truthy_scheduler_def
          dask_scheduler_get_def raiseM_def bindM_apply liftE_apply Let_def
          split: sum.splits)
qed

text \<open>
  Claim C6, for the path that reads the scheduler argument. With no pool handed in and a
  parallel option other than \<^verbatim>\<open>'mpi'\<close>, a scheduler given as a non-empty name that the
  table of known schedulers does not hold makes the core runner raise, whatever the worker
  count, the split flag and the progress setting, and the state is returned untouched: no
  call was run or registered with a pool and no progress was made. What is raised is
  decided in the order of the code: the attribute error of the name lookup when the
  function has no name, else the error of building the graph of deferred calls, else the
  configuration error. For a named function and a combination list with distinct argument
  names that the constants do not use, it is the configuration error. When a pool is handed
  in, or the parallel option is \<^verbatim>\<open>'mpi'\<close>, the scheduler argument is not read: the run is
  the run without a scheduler.
\<close>

theorem unknown_scheduler_raises:
  assumes "name \<noteq> []" and "map_of (scheduler_table ev) name = None"
  shows "(combos \<noteq> [] \<and> parallel \<noteq> ParStr ''mpi'' \<longrightarrow>
            combo_runner_core ev fn combos constants split parallel num_workers
                (Some (SchedName name)) None hide_progbar s
              = (case get_fn_name fn of
                   Inl e \<Rightarrow> (Inl e, s)
                 | Inr fn_name \<Rightarrow>
                     (case fst (nested_submit (lift_fn (fn_call fn)) combos constants True None
                                  default_submitter s) of
                        Inl e \<Rightarrow> (Inl e, s)
                      | Inr jobs \<Rightarrow> (Inl (ValueError ''unrecognized scheduler''), s))) \<and>
            snd (nested_submit (lift_fn (fn_call fn)) combos constants True None
                   default_submitter s) = s \<and>
            (distinct (map fst combos) \<and> fst ` set combos \<inter> fst ` set constants = {} \<and>
             get_fn_name fn = Inr fn_name \<longrightarrow>
               combo_runner_core ev fn combos constants split parallel num_workers
                   (Some (SchedName name)) None hide_progbar s
                 = (Inl (ValueError ''unrecognized scheduler''), s))) \<and>
         combo_runner_core ev fn combos constants split parallel num_workers
             (Some (SchedName name)) (Some p) hide_progbar
           = combo_runner_core ev fn combos constants split parallel num_workers None (Some p)
               hide_progbar \<and>
         combo_runner_core ev fn combos constants split (ParStr ''mpi'') num_workers
             (Some (SchedName name)) None hide_progbar
           = combo_runner_core ev fn combos constants split (ParStr ''mpi'') num_workers None None
               hide_progbar"
proof (intro conjI impI)
  assume path: "combos \<noteq> [] \<and> parallel \<noteq> ParStr ''mpi''"
  then have ne: "combos \<noteq> []" and par: "parallel \<noteq> ParStr ''mpi''" by simp_all
  note run = unknown_scheduler_run [OF ne par assms, of fn constants split num_workers
      hide_progbar s]
  show "combo_runner_core ev fn combos constants split parallel num_workers
          (Some (SchedName name)) None hide_progbar s
        = (case get_fn_name fn of
             Inl e \<Rightarrow> (Inl e, s)
           | Inr fn_name \<Rightarrow>
               (case fst (nested_submit (lift_fn (fn_call fn)) combos constants True None
                            default_submitter s) of
                  Inl e \<Rightarrow> (Inl e, s)
                | Inr jobs \<Rightarrow> (Inl (ValueError ''unrecognized scheduler''), s)))"
    by (simp add: run nested_submit_deferred liftE_apply split: sum.splits)
  show "snd (nested_submit (lift_fn (fn_call fn)) combos constants True None
               default_submitter s) = s"
    by (simp add: nested_submit_deferred liftE_apply)
  assume wf: "distinct (map fst combos) \<and> fst ` set combos \<inter> fst ` set constants = {} \<and>
              get_fn_name fn = Inr fn_name"
  then have d: "distinct (map fst combos)" and i: "fst ` set combos \<inter> fst ` set constants = {}"
    and nm: "get_fn_name fn = Inr fn_name" by simp_all
  from pure_tree_delayed_total [OF ne d i] obtain jobs where
    "pure_tree delayed_leaf combos constants = Inr jobs" by auto
  then show "combo_runner_core ev fn combos constants split parallel num_workers
               (Some (SchedName name)) None hide_progbar s
             = (Inl (ValueError ''unrecognized scheduler''), s)"
    by (simp add: run nm)
next
  show "combo_runner_core ev fn combos constants split parallel num_workers
             (Some (SchedName name)) (Some p) hide_progbar
           = combo_runner_core ev fn combos constants split parallel num_workers None (Some p)
               hide_progbar"
    by (rule scheduler_ignored_with_pool)
  show "combo_runner_core ev fn combos constants split (ParStr ''mpi'') num_workers
             (Some (SchedName name)) None hide_progbar
           = combo_runner_core ev fn combos constants split (ParStr ''mpi'') num_workers None None
               hide_progbar"
    by (rule scheduler_ignored_with_mpi)
qed

theorem unknown_scheduler_raises_witness:
  "''z'' \<noteq> [] \<and> map_of (scheduler_table env0) ''z'' = None \<and>
   combo_runner_core env0 foo3_scalar combos2 [] False (ParBool False) (Some 2)
     (Some (SchedName ''z'')) None False world0
   = (Inl (ValueError ''unrecognized scheduler''), world0)"
proof -
  have z: "''z'' \<noteq> []" "map_of (scheduler_table env0) ''z'' = None"
    by (simp_all add: env0_def)
  have wf: "combos2 \<noteq> [] \<and> ParBool False \<noteq> ParStr ''mpi''"
    "distinct (map fst combos2) \<and> fst ` set combos2 \<inter> fst ` set ([] :: kwargs) = {} \<and>
     get_fn_name foo3_scalar = Inr ''foo3_scalar''"
    by (simp_all add: combos2_def get_fn_name_def foo3_scalar_def)
  note inst = unknown_scheduler_raises [OF z, of combos2 "ParBool False" foo3_scalar "[]" False
      "Some 2" False world0 "''foo3_scalar''"]
  from inst [THEN conjunct1, rule_format, OF wf(1), THEN conjunct2, THEN conjunct2, rule_format,
      OF wf(2)] z
  show ?thesis by simp
qed

text \<open>
  The claim as it stands promises the configuration error on every path that takes a
  scheduler argument. The runs below are given the unknown name \<^verbatim>\<open>'z'\<close>: with a pool
  handed in and with the parallel option \<^verbatim>\<open>'mpi'\<close> they return their results, and for
  a callable without a name the deferred-graph path raises the attribute error of the name
  lookup instead. The empty name, unknown as well, is false in a condition: it does not
  even select the deferred-graph path, and the sequential run returns its results.
\<close>

theorem unknown_scheduler_not_read_counterexample:
  "map_of (scheduler_table env0) ''z'' = None \<and>
   fst (combo_runner_core env0 foo3_scalar combos1 constants1 False (ParBool False) None
          (Some (SchedName ''z'')) (Some \<lparr>pool_api = HasSubmit, has_scheduler = False\<rparr>) False
          world0)
     = Inr (ListV [IntV 321, IntV 322]) \<and>
   fst (combo_runner_core env0 foo3_scalar combos1 constants1 False (ParStr ''mpi'') None
          (Some (SchedName ''z'')) None False world0)
     = Inr (ListV [IntV 321, IntV 322]) \<and>
   combo_runner_core env0 (foo3_scalar\<lparr>dunder_name := None\<rparr>) combos1 constants1 False
       (ParBool False) None (Some (SchedName ''z'')) None False world0
     = (Inl (AttributeError ''func''), world0) \<and>
   map_of (scheduler_table env0) [] = None \<and>
   fst (combo_runner_core env0 foo3_scalar combos1 constants1 False (ParBool False) None
          (Some (SchedName [])) None False world0)
     = Inr (ListV [IntV 321, IntV 322])"
  by code_simp

section \<open>Agreement of the backends\<close>

subsection \<open>Sequential mode\<close>

lemma mapM_value:
  "(\<And>x s. x \<in> set xs \<Longrightarrow> fst (h x s) = k x) \<Longrightarrow> fst (mapM h xs s) = mapE k xs"
proof (induction xs arbitrary: s)
  case Nil
  show ?case by (simp add: returnM_def)
next
  case (Cons x xs)
  have hx: "fst (h x s) = k x" by (rule Cons.prems) simp
  have ih: "fst (mapM h xs s1) = mapE k xs" for s1
    by (rule Cons.IH) (simp add: Cons.prems)
  show ?case
  proof (cases "h x s")
    case (Pair r s1)
    with hx ih [of s1] show ?thesis
      by (cases "mapM h xs s1") (auto simp: mapM_Cons_apply split: sum.splits)
  qed
qed

lemma bindM_return_value:
  "fst (bindM m (\<lambda>x. returnM (g x)) s) = (case fst (m s) of Inl e \<Rightarrow> Inl e | Inr x \<Rightarrow> Inr (g x))"
  by (cases "m s") (auto simp: bindM_apply returnM_def split: sum.splits)

lemma nested_submit_value:
  assumes op: "\<And>kw s. fst (leaf_op fn delay pool submitter kw s) = g kw"
  shows "fst (nested_submit fn combos kwds delay pool submitter s) = pure_tree g combos kwds"
  using op
proof (induction g combos kwds arbitrary: s rule: pure_tree.induct)
  case (1 g kwds)
  show ?case by (simp add: nested_submit.simps raiseM_def)
next
  case (2 g arg inputs kwds)
  have "fst (bindM (liftE (call_kwargs kwds arg x)) (leaf_op fn delay pool submitter) s1)
          = (case call_kwargs kwds arg x of Inl e \<Rightarrow> Inl e | Inr kw \<Rightarrow> g kw)" for x s1
    by (cases "call_kwargs kwds arg x") (simp_all add: raiseM_def "2.prems")
  then have "fst (mapM (\<lambda>x. bindM (liftE (call_kwargs kwds arg x))
                         (leaf_op fn delay pool submitter)) inputs s)
          = mapE (\<lambda>x. case call_kwargs kwds arg x of Inl e \<Rightarrow> Inl e | Inr kw \<Rightarrow> g kw) inputs"
    by (intro mapM_value) simp
  then show ?case
    by (simp add: nested_submit_inner bindM_return_value)
next
  case (3 g arg inputs c combos kwds)
  have "fst (mapM (\<lambda>x. nested_submit fn (c # combos) (dict_set kwds arg x) delay pool submitter)
               inputs s)
          = mapE (\<lambda>x. pure_tree g (c # combos) (dict_set kwds arg x)) inputs"
    by (rule mapM_value) (rule "3.IH", simp, rule "3.prems")
  then show ?case
    by (simp add: nested_submit_outer bindM_return_value)
qed

lemma update_upon_eval_value: "fst (update_upon_eval (lift_fn f) pb kw s) = f kw"
  by (cases "f kw")
     (simp_all add: update_upon_eval_def lift_fn_def raiseM_def bindM_apply pbar_update_def
        returnM_def)

lemma sequential_value:
  "fst (nested_submit (update_upon_eval (lift_fn f) pb) combos kwds False None submitter s)
     = pure_tree f combos kwds"
  by (rule nested_submit_value) (simp add: leaf_op_def update_upon_eval_value)

subsection \<open>Deferred-graph mode\<close>

lemma mapE_then:
  "mapE g xs = Inr ys \<Longrightarrow>
   mapE (\<lambda>x. case g x of Inl e \<Rightarrow> Inl e | Inr y \<Rightarrow> h y) xs = mapE h ys"
proof (induction xs arbitrary: ys)
  case Nil
  then show ?case by auto
next
  case (Cons x xs)
  then show ?case by (auto split: sum.splits)
qed

lemma mapE_Inr_elim:
  "mapE g xs = Inr ys \<Longrightarrow> length ys = length xs \<and> (\<forall>i<length xs. g (xs ! i) = Inr (ys ! i))"
proof (induction xs arbitrary: ys)
  case Nil
  then show ?case by simp
next
  case (Cons x xs)
  from Cons.prems obtain y ys' where y: "g x = Inr y" "mapE g xs = Inr ys'" "ys = y # ys'"
    by (auto split: sum.splits)
  from Cons.IH [OF y(2)] y(1,3) show ?case
    by (auto simp: nth_Cons split: nat.splits)
qed

lemma mapE_pointwise:
  "length ys = length xs \<Longrightarrow> (\<And>i. i < length xs \<Longrightarrow> h (ys ! i) = g (xs ! i)) \<Longrightarrow>
   mapE h ys = mapE g xs"
proof (induction xs arbitrary: ys)
  case Nil
  then show ?case by simp
next
  case (Cons x xs)
  then obtain y ys' where ys: "ys = y # ys'" by (cases ys) auto
  have "h y = g x" using Cons.prems(2) [of 0] ys by simp
  moreover have "mapE h ys' = mapE g xs"
  proof (rule Cons.IH)
    show "length ys' = length xs" using Cons.prems(1) ys by simp
    fix i assume "i < length xs"
    then show "h (ys' ! i) = g (xs ! i)"
      using Cons.prems(2) [of "Suc i"] ys by simp
  qed
  ultimately show ?case by (simp add: ys split: sum.splits)
qed

lemma compute_delayed_tree:
  "pure_tree delayed_leaf combos kwds = Inr jobs \<Longrightarrow> compute_val f jobs = pure_tree f combos kwds"
proof (induction delayed_leaf combos kwds arbitrary: jobs rule: pure_tree.induct)
  case (1 kwds)
  then show ?case by simp
next
  case (2 arg inputs kwds)
  let ?k = "\<lambda>x. case call_kwargs kwds arg x of Inl e \<Rightarrow> Inl e | Inr kw \<Rightarrow> delayed_leaf kw"
  from 2 obtain leaves where l: "mapE ?k inputs = Inr leaves" and jobs: "jobs = ListV leaves"
    by (auto split: sum.splits)
  have "mapE (compute_val f) leaves
          = mapE (\<lambda>x. case call_kwargs kwds arg x of Inl e \<Rightarrow> Inl e | Inr kw \<Rightarrow> f kw) inputs"
  proof (rule mapE_pointwise)
    from mapE_Inr_elim [OF l] show "length leaves = length inputs" by simp
    fix i assume "i < length inputs"
    with mapE_Inr_elim [OF l] have "?k (inputs ! i) = Inr (leaves ! i)" by simp
    then obtain kw where "call_kwargs kwds arg (inputs ! i) = Inr kw" "leaves ! i = DelayedV kw"
      by (auto simp: delayed_leaf_def split: sum.splits)
    then show "compute_val f (leaves ! i)
        = (case call_kwargs kwds arg (inputs ! i) of Inl e \<Rightarrow> Inl e | Inr kw \<Rightarrow> f kw)"
      by simp
  qed
  then show ?case by (simp add: jobs)
next
  case (3 arg inputs c combos kwds)
  let ?k = "\<lambda>x. pure_tree delayed_leaf (c # combos) (dict_set kwds arg x)"
  from "3.prems" obtain subs where l: "mapE ?k inputs = Inr subs" and jobs: "jobs = ListV subs"
    by (auto split: sum.splits)
  have "mapE (compute_val f) subs
          = mapE (\<lambda>x. pure_tree f (c # combos) (dict_set kwds arg x)) inputs"
  proof (rule mapE_pointwise)
    from mapE_Inr_elim [OF l] show "length subs = length inputs" by simp
    fix i assume i: "i < length inputs"
    with mapE_Inr_elim [OF l] have "?k (inputs ! i) = Inr (subs ! i)" by simp
    with i show "compute_val f (subs ! i)
        = pure_tree f (c # combos) (dict_set kwds arg (inputs ! i))"
      by (intro "3.hyps") simp_all
  qed
  then show ?case by (simp add: jobs)
qed

lemma pure_tree_ListV:
  "pure_tree g combos kwds = Inr t \<Longrightarrow> \<exists>xs. t = ListV xs"
  by (induction g combos kwds rule: pure_tree.induct) (auto split: sum.splits)

lemma dask_compute_delayed_tree:
  assumes "pure_tree delayed_leaf combos kwds = Inr jobs" and "pure_tree f combos kwds = Inr t"
  shows "dask_compute f jobs = Inr (TupleV (items t))"
proof -
  from pure_tree_ListV [OF assms(1)] obtain js where js: "jobs = ListV js" by auto
  from compute_delayed_tree [OF assms(1), of f] assms(2)
  have "compute_val f (ListV js) = Inr t" by (simp add: js)
  then show ?thesis
    by (auto simp: dask_compute_def js split: sum.splits)
qed

lemma tree_rel_0 [simp]: "tree_rel L 0 = L"
  by (rule ext)+ simp

lemma ext_simps [simp]:
  "ext s [] = s" "ext (ext s a) b = ext s (a @ b)" "submitted (ext s new) = submitted s @ new"
  "stored (ext s new) = stored s" "progress (ext s new) = progress s"
  by (simp_all add: ext_def)

lemma handle_of_mono: "handle_of b js T v \<Longrightarrow> handle_of b (js @ extra) T v"
  by (auto simp: handle_of_def nth_append)

lemma tree_rel_mono:
  assumes "\<And>T t. L T t \<Longrightarrow> L' T t"
  shows "tree_rel L d T t \<Longrightarrow> tree_rel L' d T t"
proof (induction d arbitrary: T t)
  case 0
  then show ?case by (simp add: assms)
next
  case (Suc d)
  then obtain Ts ts where T: "T = ListV Ts" "t = ListV ts" "list_all2 (tree_rel L d) Ts ts"
    by (auto split: val.splits)
  from T(3) have "list_all2 (tree_rel L' d) Ts ts"
    by (rule list_all2_mono) (rule Suc.IH)
  then show ?case by (simp add: T)
qed

lemma tree_rel_jobs_mono:
  "tree_rel (handle_of b js) d T t \<Longrightarrow> tree_rel (handle_of b (js @ extra)) d T t"
  by (rule tree_rel_mono) (rule handle_of_mono)

lemma mapE_Inr_all2: "mapE k xs = Inr ts \<Longrightarrow> list_all2 (\<lambda>x t. k x = Inr t) xs ts"
proof (induction xs arbitrary: ts)
  case Nil
  then show ?case by simp
next
  case (Cons x xs)
  then show ?case by (auto split: sum.splits)
qed

lemma mapM_ext:
  assumes "list_all2 (\<lambda>x t. \<forall>s. \<exists>T new. h x s = (Inr T, ext s new) \<and> R (submitted s @ new) T t)
             xs ts"
    and mono: "\<And>js extra T t. R js T t \<Longrightarrow> R (js @ extra) T t"
  shows "\<exists>Ts new. mapM h xs s = (Inr Ts, ext s new) \<and> list_all2 (R (submitted s @ new)) Ts ts"
  using assms(1)
proof (induction xs ts arbitrary: s rule: list_all2_induct)
  case Nil
  have "mapM h [] s = (Inr [], ext s [])" by (simp add: returnM_def)
  then show ?case by (intro exI [of _ "[]"]) simp
next
  case (Cons x xs t ts)
  from Cons.hyps(1) obtain T n1 where
    hx: "h x s = (Inr T, ext s n1)" and r: "R (submitted s @ n1) T t" by blast
  from Cons.IH [of "ext s n1"] obtain Ts n2 where
    m: "mapM h xs (ext s n1) = (Inr Ts, ext s (n1 @ n2))"
    and rs: "list_all2 (R (submitted s @ n1 @ n2)) Ts ts"
    by auto
  have "mapM h (x # xs) s = (Inr (T # Ts), ext s (n1 @ n2))"
    by (simp add: mapM_Cons_apply hx m)
  moreover have "R (submitted s @ n1 @ n2) T t"
    using mono [OF r, of n2] by simp
  ultimately show ?case
    using rs by (intro exI [of _ "T # Ts"] exI [of _ "n1 @ n2"]) simp
qed

lemma default_submitter_registers:
  assumes "pool_api p \<noteq> HasNeither" and "''pool'' \<notin> fst ` set kw" and "''fn'' \<notin> fst ` set kw"
    and "f kw = Inr v"
  shows "\<exists>T. default_submitter p (lift_fn f) kw s = (Inr T, ext s [(kw, Inr v)]) \<and>
             handle_of (pool_api p = HasSubmit) (submitted s @ [(kw, Inr v)]) T v"
  using assms
  by (cases "pool_api p")
     (auto simp: default_submitter_def pool_submit_def pool_apply_async_def lift_fn_def liftE_def
        raiseM_def ext_def handle_of_def)

lemma pooled_submission:
  assumes api: "pool_api p \<noteq> HasNeither"
  shows "pure_tree f combos kwds = Inr t \<Longrightarrow>
         ''pool'' \<notin> fst ` set kwds \<union> fst ` set combos \<Longrightarrow>
         ''fn'' \<notin> fst ` set kwds \<union> fst ` set combos \<Longrightarrow>
         \<exists>T new. nested_submit (lift_fn f) combos kwds False (Some p) default_submitter s
                    = (Inr T, ext s new) \<and>
                 tree_rel (handle_of (pool_api p = HasSubmit) (submitted s @ new))
                   (length combos) T t"
proof (induction f combos kwds arbitrary: t s rule: pure_tree.induct)
  case (1 g kwds)
  then show ?case by simp
next
  case (2 g arg inputs kwds)
  let ?k = "\<lambda>x. case call_kwargs kwds arg x of Inl e \<Rightarrow> Inl e | Inr kw \<Rightarrow> g kw"
  let ?h = "\<lambda>x. bindM (liftE (call_kwargs kwds arg x))
                  (leaf_op (lift_fn g) False (Some p) default_submitter)"
  let ?R = "\<lambda>js. handle_of (pool_api p = HasSubmit) js"
  from "2.prems"(1) obtain ts where ts: "mapE ?k inputs = Inr ts" and t: "t = ListV ts"
    by (auto split: sum.splits)
  have "list_all2 (\<lambda>x t. \<forall>s. \<exists>T new. ?h x s = (Inr T, ext s new) \<and> ?R (submitted s @ new) T t)
          inputs ts"
  proof (rule list_all2_mono [OF mapE_Inr_all2 [OF ts]], intro allI)
    fix x v s
    assume "?k x = Inr v"
    then obtain kw where kw: "call_kwargs kwds arg x = Inr kw" "g kw = Inr v"
      by (auto split: sum.splits)
    then have "kw = kwds @ [(arg, x)]"
      by (auto simp: call_kwargs_def split: if_splits)
    with "2.prems"(2,3) have names: "''pool'' \<notin> fst ` set kw" "''fn'' \<notin> fst ` set kw"
      by auto
    from default_submitter_registers [where f = g and s = s, OF api names kw(2)]
    show "\<exists>T new. ?h x s = (Inr T, ext s new) \<and> ?R (submitted s @ new) T v"
      by (auto simp: kw(1) leaf_op_def)
  qed
  from mapM_ext [of ?h ?R inputs ts s, OF this handle_of_mono]
  obtain Ts new where "mapM ?h inputs s = (Inr Ts, ext s new)"
    "list_all2 (?R (submitted s @ new)) Ts ts" by blast
  then show ?case
    by (intro exI [of _ "ListV Ts"] exI [of _ new])
       (simp add: nested_submit_inner bindM_apply returnM_def t)
next
  case (3 g arg inputs c combos kwds)
  let ?k = "\<lambda>x. pure_tree g (c # combos) (dict_set kwds arg x)"
  let ?h = "\<lambda>x. nested_submit (lift_fn g) (c # combos) (dict_set kwds arg x) False (Some p)
                  default_submitter"
  let ?R = "\<lambda>js. tree_rel (handle_of (pool_api p = HasSubmit) js) (length (c # combos))"
  from "3.prems"(1) obtain ts where ts: "mapE ?k inputs = Inr ts" and t: "t = ListV ts"
    by (auto split: sum.splits)
  have "list_all2 (\<lambda>x t. \<forall>s. \<exists>T new. ?h x s = (Inr T, ext s new) \<and> ?R (submitted s @ new) T t)
          inputs ts"
  proof (rule list.rel_mono_strong [OF mapE_Inr_all2 [OF ts]], intro allI)
    fix x v s
    assume x: "x \<in> set inputs" and k: "?k x = Inr v"
    have "''pool'' \<notin> fst ` set (dict_set kwds arg x) \<union> fst ` set (c # combos)"
      "''fn'' \<notin> fst ` set (dict_set kwds arg x) \<union> fst ` set (c # combos)"
      using "3.prems"(2,3) by (auto simp: keys_dict_set)
    from "3.IH" [OF x k this, of s]
    show "\<exists>T new. ?h x s = (Inr T, ext s new) \<and> ?R (submitted s @ new) T v" .
  qed
  from mapM_ext [of ?h ?R inputs ts s, OF this tree_rel_jobs_mono]
  obtain Ts new where "mapM ?h inputs s = (Inr Ts, ext s new)"
    "list_all2 (?R (submitted s @ new)) Ts ts" by blast
  then show ?case
    by (intro exI [of _ "ListV Ts"] exI [of _ new])
       (simp add: nested_submit_outer bindM_apply returnM_def t)
qed

lemma mapM_invariant:
  assumes "list_all2 (\<lambda>T t. \<forall>s. I s \<longrightarrow> (\<exists>s'. h T s = (Inr t, s') \<and> I s')) Ts ts" and "I s"
  shows "\<exists>s'. mapM h Ts s = (Inr ts, s') \<and> I s'"
  using assms
proof (induction Ts ts arbitrary: s rule: list_all2_induct)
  case Nil
  then show ?case by (simp add: returnM_def)
next
  case (Cons T Ts t ts)
  from Cons.hyps(1) Cons.prems obtain s1 where h: "h T s = (Inr t, s1)" "I s1" by blast
  from Cons.IH [OF h(2)] obtain s2 where "mapM h Ts s1 = (Inr ts, s2)" "I s2" by blast
  with h(1) show ?case by (simp add: mapM_Cons_apply)
qed

lemma collection:
  assumes "good_getter I L getter"
  shows "tree_rel L (Suc d) T t \<Longrightarrow> I s \<Longrightarrow>
         \<exists>s'. nested_get T (int (Suc d)) getter s = (Inr t, s') \<and> I s'"
proof (induction d arbitrary: T t s)
  case 0
  then obtain Ts ts where T: "T = ListV Ts" "t = ListV ts" "list_all2 L Ts ts"
    by (auto split: val.splits)
  have "list_all2 (\<lambda>T t. \<forall>s. I s \<longrightarrow> (\<exists>s'. getter T s = (Inr t, s') \<and> I s')) Ts ts"
    by (rule list_all2_mono [OF T(3)]) (use assms in \<open>simp add: good_getter_def\<close>)
  from mapM_invariant [OF this "0.prems"(2)] obtain s' where
    "mapM getter Ts s = (Inr ts, s')" "I s'" by blast
  then show ?case
    by (simp add: T nested_get_ListV bindM_apply returnM_def)
next
  case (Suc d)
  then obtain Ts ts where T: "T = ListV Ts" "t = ListV ts"
    "list_all2 (tree_rel L (Suc d)) Ts ts"
    by (auto split: val.splits)
  let ?h = "\<lambda>fut. nested_get fut (int (Suc d)) getter"
  have "list_all2 (\<lambda>T t. \<forall>s. I s \<longrightarrow> (\<exists>s'. ?h T s = (Inr t, s') \<and> I s')) Ts ts"
    by (rule list_all2_mono [OF T(3)]) (use Suc.IH in blast)
  from mapM_invariant [OF this Suc.prems(2)] obtain s' where
    "mapM ?h Ts s = (Inr ts, s')" "I s'" by blast
  then show ?case
    by (simp add: T nested_get_ListV bindM_apply returnM_def)
qed

lemma future_result_handle:
  "h < length (submitted s) \<Longrightarrow> future_result (FutureV h) s = (snd (submitted s ! h), s)"
  by (simp add: future_result_def)

lemma list_all2_left_ex: "list_all2 P xs ys \<Longrightarrow> x \<in> set xs \<Longrightarrow> \<exists>y. P x y"
  by (induction xs ys rule: list_all2_induct) auto

lemma try_result_then_get_handle:
  fixes s :: world
  assumes "handle_of b (submitted s) T v"
  shows "try_result_then_get T s = (Inr v, s)"
proof -
  from assms obtain h where h: "T = FutureV h \<or> T = AsyncResultV h"
    "h < length (submitted s)" "snd (submitted s ! h) = Inr v"
    by (auto simp: handle_of_def)
  from h(1) show ?thesis
  proof
    assume "T = FutureV h"
    with h(2,3) show ?thesis
      by (simp add: try_result_then_get_def future_result_def)
  next
    assume "T = AsyncResultV h"
    with h(2,3) show ?thesis
      by (simp add: try_result_then_get_def future_result_def future_get_def raiseM_def)
  qed
qed

lemma default_getter_good:
  "good_getter (\<lambda>s. submitted s = js) (handle_of b js) (default_getter pbo)"
  unfolding good_getter_def
proof (intro allI impI, elim conjE)
  fix s :: world and T v
  assume s: "submitted s = js" and "handle_of b js T v"
  then have "try_result_then_get T s = (Inr v, s)"
    using try_result_then_get_handle [of b s T v] by simp
  with s show "\<exists>s'. default_getter pbo T s = (Inr v, s') \<and> submitted s' = js"
    by (auto simp: default_getter_def bindM_apply pbar_update_def returnM_def
             split: option.splits)
qed

lemma try_stored_good:
  "good_getter (keeps js) (handle_of True js) try_stored_then_result"
  unfolding good_getter_def
proof (intro allI impI, elim conjE)
  fix s :: world and T v
  assume k: "keeps js s" and "handle_of True js T v"
  then obtain h where h: "T = FutureV h" "h < length js" "snd (js ! h) = Inr v"
    by (auto simp: handle_of_def)
  show "\<exists>s'. try_stored_then_result T s = (Inr v, s') \<and> keeps js s'"
  proof (cases "map_of (stored s) h")
    case None
    with h k show ?thesis
      by (auto simp: try_stored_then_result_def future_result_def keeps_def)
  next
    case (Some v')
    with k h have "v' = v" by (auto simp: keeps_def stored_ok_def)
    with Some h k show ?thesis
      by (auto simp: try_stored_then_result_def)
  qed
qed

lemma flatten_Suc:
  "flatten its (int (Suc d)) =
     (if d = 0 then py_iter its
      else (case py_iter its of
              Inl e \<Rightarrow> Inl e
            | Inr xs \<Rightarrow>
                (case mapE (\<lambda>it. flatten it (int d)) xs of
                   Inl e \<Rightarrow> Inl e
                 | Inr yss \<Rightarrow> Inr (concat yss))))"
  by (subst flatten.simps) (cases d; simp cong: sum.case_cong)

lemma flatten_handles:
  "tree_rel L (Suc d) T t \<Longrightarrow> \<exists>fs. flatten T (int (Suc d)) = Inr fs \<and> (\<forall>f\<in>set fs. \<exists>v. L f v)"
proof (induction d arbitrary: T t)
  case 0
  then obtain Ts ts where T: "T = ListV Ts" "t = ListV ts" "list_all2 L Ts ts"
    by (auto split: val.splits)
  from T(3) have "\<forall>f\<in>set Ts. \<exists>v. L f v"
    by (blast dest: list_all2_left_ex)
  then show ?case by (simp add: flatten_Suc T)
next
  case (Suc d)
  then obtain Ts ts where T: "T = ListV Ts" "t = ListV ts"
    "list_all2 (tree_rel L (Suc d)) Ts ts"
    by (auto split: val.splits)
  have each: "\<exists>fs. flatten x (int (Suc d)) = Inr fs \<and> (\<forall>f\<in>set fs. \<exists>v. L f v)" if "x \<in> set Ts" for x
  proof -
    from list_all2_left_ex [OF T(3) that] obtain y where "tree_rel L (Suc d) x y"
      by blast
    then show ?thesis by (rule Suc.IH)
  qed
  have "\<exists>yss. mapE (\<lambda>it. flatten it (int (Suc d))) Ts = Inr yss \<and>
             (\<forall>ys\<in>set yss. \<forall>f\<in>set ys. \<exists>v. L f v)"
    using each
  proof (induction Ts)
    case Nil
    show ?case by simp
  next
    case (Cons x xs)
    from Cons.prems [of x] obtain fs where fs: "flatten x (int (Suc d)) = Inr fs"
      "\<forall>f\<in>set fs. \<exists>v. L f v" by auto
    from Cons.IH Cons.prems obtain yss where
      "mapE (\<lambda>it. flatten it (int (Suc d))) xs = Inr yss"
      "\<forall>ys\<in>set yss. \<forall>f\<in>set ys. \<exists>v. L f v" by auto
    with fs show ?case by auto
  qed
  then obtain yss where "mapE (\<lambda>it. flatten it (int (Suc d))) Ts = Inr yss"
    "\<forall>ys\<in>set yss. \<forall>f\<in>set ys. \<exists>v. L f v" by blast
  then show ?case
    by (subst flatten_Suc) (auto simp: T)
qed

lemma pbar_loop:
  fixes s :: world
  shows "\<exists>us s'. mapM (\<lambda>f. pbar_update pb) ys s = (Inr us, s') \<and> submitted s' = submitted s \<and>
           stored s' = stored s"
proof (induction ys arbitrary: s)
  case Nil
  show ?case by (simp add: returnM_def)
next
  case (Cons y ys)
  obtain s1 where s1: "pbar_update pb s = (Inr (), s1)" "submitted s1 = submitted s"
    "stored s1 = stored s"
    by (simp add: pbar_update_def)
  from Cons [of s1] obtain us s' where "mapM (\<lambda>f. pbar_update pb) ys s1 = (Inr us, s')"
    "submitted s' = submitted s1" "stored s' = stored s1" by blast
  with s1 show ?case by (simp add: mapM_Cons_apply)
qed

lemma store_loop:
  "\<forall>f\<in>set ys. \<exists>v. handle_of True js f v \<Longrightarrow> keeps js s \<Longrightarrow>
   \<exists>us s'. mapM (\<lambda>f. bindM (store_result f) (\<lambda>u. pbar_update pb)) ys s = (Inr us, s') \<and>
           keeps js s'"
proof (induction ys arbitrary: s)
  case Nil
  then show ?case by (simp add: returnM_def)
next
  case (Cons y ys)
  from Cons.prems(1) obtain h v where h: "y = FutureV h" "h < length js" "snd (js ! h) = Inr v"
    by (auto simp: handle_of_def)
  let ?s1 = "s\<lparr>stored := (h, v) # stored s\<rparr>"
  let ?s2 = "if disabled pb then ?s1 else ?s1\<lparr>progress := progress ?s1 + 1\<rparr>"
  have step: "bindM (store_result y) (\<lambda>u. pbar_update pb) s = (Inr (), ?s2)"
    using h Cons.prems(2)
    by (simp add: store_result_def bindM_apply future_result_def keeps_def pbar_update_def)
  have "keeps js ?s2"
    using Cons.prems(2) h by (auto simp: keeps_def stored_ok_def)
  from Cons.IH [OF _ this] Cons.prems(1) obtain us s' where
    "mapM (\<lambda>f. bindM (store_result f) (\<lambda>u. pbar_update pb)) ys ?s2 = (Inr us, s')" "keeps js s'"
    by auto
  with step show ?case by (simp add: mapM_Cons_apply)
qed

lemma mapE_weaken:
  "mapE g xs = Inr ys \<Longrightarrow> (\<And>x y. x \<in> set xs \<Longrightarrow> g x = Inr y \<Longrightarrow> \<exists>z. h x = Inr z) \<Longrightarrow>
   \<exists>zs. mapE h xs = Inr zs"
proof (induction xs arbitrary: ys)
  case Nil
  show ?case by simp
next
  case (Cons x xs)
  from Cons.prems(1) obtain y ys' where y: "g x = Inr y" "mapE g xs = Inr ys'"
    by (auto split: sum.splits)
  from Cons.prems(2) [of x y] y(1) obtain z where "h x = Inr z" by auto
  moreover from Cons.IH [OF y(2)] Cons.prems(2) obtain zs where "mapE h xs = Inr zs" by auto
  ultimately show ?case by simp
qed

lemma delayed_tree_exists:
  "pure_tree f combos kwds = Inr t \<Longrightarrow> \<exists>jobs. pure_tree delayed_leaf combos kwds = Inr jobs"
proof (induction f combos kwds arbitrary: t rule: pure_tree.induct)
  case (1 g kwds)
  then show ?case by simp
next
  case (2 g arg inputs kwds)
  from "2.prems" obtain ts where
    "mapE (\<lambda>x. case call_kwargs kwds arg x of Inl e \<Rightarrow> Inl e | Inr kw \<Rightarrow> g kw) inputs = Inr ts"
    by (auto split: sum.splits)
  then have "\<exists>zs. mapE (\<lambda>x. case call_kwargs kwds arg x of Inl e \<Rightarrow> Inl e
                               | Inr kw \<Rightarrow> delayed_leaf kw) inputs = Inr zs"
    by (rule mapE_weaken) (auto simp: delayed_leaf_def split: sum.splits)
  then show ?case by auto
next
  case (3 g arg inputs c combos kwds)
  from "3.prems" obtain ts where
    "mapE (\<lambda>x. pure_tree g (c # combos) (dict_set kwds arg x)) inputs = Inr ts"
    by (auto split: sum.splits)
  then have "\<exists>zs. mapE (\<lambda>x. pure_tree delayed_leaf (c # combos) (dict_set kwds arg x)) inputs
               = Inr zs"
    by (rule mapE_weaken) (rule "3.IH")
  then show ?case by auto
qed

lemma stored_ok_append: "stored_ok js st \<Longrightarrow> stored_ok (js @ extra) st"
  unfolding stored_ok_def
proof (intro allI impI)
  fix h v
  assume a: "\<forall>h v. map_of st h = Some v \<longrightarrow> h < length js \<and> snd (js ! h) = Inr v"
    and "map_of st h = Some v"
  then have "h < length js" "snd (js ! h) = Inr v" by auto
  then show "h < length (js @ extra) \<and> snd ((js @ extra) ! h) = Inr v"
    by (simp add: nth_append)
qed

lemma length_combos_Suc: "combos \<noteq> [] \<Longrightarrow> \<exists>d. length combos = Suc d"
  by (cases combos) auto

lemma pooled_then_get:
  fixes s :: world
  assumes ne: "combos \<noteq> []" and ref: "pure_tree f combos constants = Inr t"
    and api: "pool_api p \<noteq> HasNeither" and names: "reserved_free combos constants"
  shows "\<exists>T s1. nested_submit (lift_fn f) combos constants False (Some p) default_submitter s
                   = (Inr T, s1) \<and> stored s1 = stored s \<and>
               (\<exists>new. submitted s1 = submitted s @ new) \<and>
               tree_rel (handle_of (pool_api p = HasSubmit) (submitted s1)) (length combos) T t \<and>
               (\<forall>s2 pbo. submitted s2 = submitted s1 \<longrightarrow>
                  (\<exists>s3. nested_get T (int (length combos)) (default_getter pbo) s2 = (Inr t, s3)))"
proof -
  from names have n: "''pool'' \<notin> fst ` set constants \<union> fst ` set combos"
    "''fn'' \<notin> fst ` set constants \<union> fst ` set combos"
    by (simp_all add: reserved_free_def)
  from pooled_submission [OF api ref n, of s] obtain T new where
    sub: "nested_submit (lift_fn f) combos constants False (Some p) default_submitter s
            = (Inr T, ext s new)"
    and rel: "tree_rel (handle_of (pool_api p = HasSubmit) (submitted s @ new)) (length combos) T t"
    by blast
  from length_combos_Suc [OF ne] obtain d where d: "length combos = Suc d" by auto
  have "\<exists>s3. nested_get T (int (length combos)) (default_getter pbo) s2 = (Inr t, s3)"
    if "submitted s2 = submitted (ext s new)" for s2 pbo
  proof -
    have "submitted s2 = submitted s @ new" using that by simp
    from collection [OF default_getter_good rel [unfolded d] this, of pbo]
    show ?thesis unfolding d by blast
  qed
  with sub rel show ?thesis
    by (intro exI [of _ T] exI [of _ "ext s new"]) auto
qed

declare flatten.simps [simp del]

lemma run_sequential:
  assumes "combos \<noteq> []" and ref: "pure_tree (fn_call f) combos constants = Inr t"
    and b: "backend_of parallel num_workers scheduler pool = Sequential"
  shows "\<exists>s'. combo_runner_core ev f combos constants False parallel num_workers scheduler pool
                 hide_progbar s = (Inr t, s')"
proof -
  from prod_it_dims [OF assms(1)] obtain n where
    n: "prod_it (map (\<lambda>(a, x). length x) combos) = Inr n" by auto
  let ?run = "nested_submit (update_upon_eval (lift_fn (fn_call f)) \<lparr>total = n, disabled = hide_progbar\<rparr>)
                combos constants False None default_submitter s"
  from sequential_value [of "fn_call f" _ combos constants default_submitter s] ref
  have "fst ?run = Inr t" by simp
  then obtain s' where "?run = (Inr t, s')" by (cases ?run) auto
  with b show ?thesis
    by (auto simp: combo_runner_core_def backend_of_def n bindM_apply liftE_apply returnM_def
          Let_def split: option.splits if_splits)
qed

lemma run_dask:
  assumes "combos \<noteq> []" and ref: "pure_tree (fn_call f) combos constants = Inr t"
    and b: "backend_of parallel num_workers scheduler pool = Dask"
    and sup: "supported ev s combos constants parallel num_workers scheduler pool"
    and nm: "get_fn_name f = Inr fn_name"
  shows "combo_runner_core ev f combos constants False parallel num_workers scheduler pool
           hide_progbar s = (Inr (TupleV (items t)), s)"
proof -
  from prod_it_dims [OF assms(1)] obtain n where
    n: "prod_it (map (\<lambda>(a, x). length x) combos) = Inr n" by auto
  from delayed_tree_exists [OF ref] obtain jobs where
    jobs: "pure_tree delayed_leaf combos constants = Inr jobs" by auto
  have sub: "nested_submit (lift_fn (fn_call f)) combos constants True None default_submitter s
               = (Inr jobs, s)"
    using nested_submit_pure [of "lift_fn (fn_call f)" True None default_submitter delayed_leaf combos
        constants, OF leaf_op_delayed] jobs by (simp add: liftE_apply)
  have comp: "dask_compute (fn_call f) jobs = Inr (TupleV (items t))"
    by (rule dask_compute_delayed_tree [OF jobs ref])
  from b have path: "pool = None" "parallel \<noteq> ParStr ''mpi''"
    "parallel = ParStr ''dask'' \<or> truthy_scheduler scheduler"
    by (auto simp: backend_of_def split: option.splits if_splits)
  have res: "\<exists>g. (case scheduler of
                   Some (SchedName name) \<Rightarrow>
                     if name \<noteq> [] then liftE (dask_scheduler_get ev name num_workers)
                     else returnM (SchedName name)
                 | Some g \<Rightarrow> returnM g
                 | None \<Rightarrow> returnM (SchedGet 0)) s = (Inr g, s)"
    using sup b
    by (auto simp: supported_def dask_scheduler_get_def liftE_apply returnM_def
             split: option.splits sched.splits)
  then obtain g where g: "(case scheduler of
                   Some (SchedName name) \<Rightarrow>
                     if name \<noteq> [] then liftE (dask_scheduler_get ev name num_workers)
                     else returnM (SchedName name)
                 | Some g \<Rightarrow> returnM g
                 | None \<Rightarrow> returnM (SchedGet 0)) s = (Inr g, s)" by blast
  show ?thesis
    unfolding combo_runner_core_def
    using path(2,3)
    by (simp add: path(1) n nm bindM_apply liftE_apply returnM_def Let_def sub g comp)
qed

lemma run_generic_pool:
  assumes "combos \<noteq> []" and ref: "pure_tree (fn_call f) combos constants = Inr t"
    and b: "backend_of parallel num_workers scheduler pool = GenericPool"
    and sup: "supported ev s combos constants parallel num_workers scheduler pool"
  shows "\<exists>s'. combo_runner_core ev f combos constants False parallel num_workers scheduler pool
                 hide_progbar s = (Inr t, s')"
proof -
  from prod_it_dims [OF assms(1)] obtain n where
    n: "prod_it (map (\<lambda>(a, x). length x) combos) = Inr n" by auto
  from b obtain p where p: "pool = Some p" "\<not> has_scheduler p"
    by (auto simp: backend_of_def split: option.splits if_splits)
  from sup b p have api: "pool_api p \<noteq> HasNeither" and names: "reserved_free combos constants"
    by (auto simp: supported_def)
  from pooled_then_get [OF assms(1) ref api names, of s] obtain T s1 where
    sub: "nested_submit (lift_fn (fn_call f)) combos constants False (Some p) default_submitter s
            = (Inr T, s1)"
    and get: "\<forall>s2 pbo. submitted s2 = submitted s1 \<longrightarrow>
                (\<exists>s3. nested_get T (int (length combos)) (default_getter pbo) s2 = (Inr t, s3))"
    by blast
  from get [rule_format, of s1 "Some \<lparr>total = n, disabled = hide_progbar\<rparr>"] obtain s3 where
    "nested_get T (int (length combos)) (default_getter (Some \<lparr>total = n, disabled = hide_progbar\<rparr>))
       s1 = (Inr t, s3)" by auto
  with sub p show ?thesis
    by (simp add: combo_runner_core_def n bindM_apply liftE_apply returnM_def Let_def)
qed

lemma run_mpi:
  assumes "combos \<noteq> []" and ref: "pure_tree (fn_call f) combos constants = Inr t"
    and b: "backend_of parallel num_workers scheduler pool = MPI"
    and sup: "supported ev s combos constants parallel num_workers scheduler pool"
  shows "\<exists>s'. combo_runner_core ev f combos constants False parallel num_workers scheduler pool
                 hide_progbar s = (Inr t, s')"
proof -
  from prod_it_dims [OF assms(1)] obtain n where
    n: "prod_it (map (\<lambda>(a, x). length x) combos) = Inr n" by auto
  from b have path: "pool = None" "parallel = ParStr ''mpi''"
    by (auto simp: backend_of_def split: option.splits if_splits)
  from sup b have names: "reserved_free combos constants"
    by (auto simp: supported_def)
  let ?p = "mpi_pool_executor num_workers"
  have api: "pool_api ?p \<noteq> HasNeither" by (simp add: mpi_pool_executor_def)
  from pooled_then_get [OF assms(1) ref api names, of s] obtain T s1 where
    sub: "nested_submit (lift_fn (fn_call f)) combos constants False (Some ?p) default_submitter s
            = (Inr T, s1)"
    and get: "\<forall>s2 pbo. submitted s2 = submitted s1 \<longrightarrow>
                (\<exists>s3. nested_get T (int (length combos)) (default_getter pbo) s2 = (Inr t, s3))"
    by blast
  from get [rule_format, of s1 "Some \<lparr>total = n, disabled = hide_progbar\<rparr>"] obtain s3 where
    "nested_get T (int (length combos)) (default_getter (Some \<lparr>total = n, disabled = hide_progbar\<rparr>))
       s1 = (Inr t, s3)" by auto
  with sub path show ?thesis
    by (simp add: combo_runner_core_def mpi_combo_runner_pool_def n bindM_apply liftE_apply
          returnM_def Let_def)
qed

lemma run_process_pool:
  assumes "combos \<noteq> []" and ref: "pure_tree (fn_call f) combos constants = Inr t"
    and b: "backend_of parallel num_workers scheduler pool = ProcessPool"
    and sup: "supported ev s combos constants parallel num_workers scheduler pool"
  shows "\<exists>s'. combo_runner_core ev f combos constants False parallel num_workers scheduler pool
                 hide_progbar s = (Inr t, s')"
proof -
  from prod_it_dims [OF assms(1)] obtain n where
    n: "prod_it (map (\<lambda>(a, x). length x) combos) = Inr n" by auto
  from b have path: "pool = None" "parallel \<noteq> ParStr ''mpi''"
    "\<not> (parallel = ParStr ''dask'' \<or> truthy_scheduler scheduler)"
    "truthy_parallel parallel \<or> truthy_num_workers num_workers"
    by (auto simp: backend_of_def split: option.splits if_splits)
  from sup b have names: "reserved_free combos constants"
    and nw: "case num_workers of None \<Rightarrow> True | Some n \<Rightarrow> 0 < n"
    by (auto simp: supported_def)
  let ?p = "\<lparr>pool_api = HasSubmit, has_scheduler = False\<rparr>"
  from nw have exec: "process_pool_executor num_workers = Inr ?p"
    by (auto simp: process_pool_executor_def split: option.splits)
  have api: "pool_api ?p \<noteq> HasNeither" by simp
  from pooled_then_get [OF assms(1) ref api names, of s] obtain T s1 where
    sub: "nested_submit (lift_fn (fn_call f)) combos constants False (Some ?p) default_submitter s
            = (Inr T, s1)"
    and rel: "tree_rel (handle_of (pool_api ?p = HasSubmit) (submitted s1)) (length combos) T t"
    and get: "\<forall>s2 pbo. submitted s2 = submitted s1 \<longrightarrow>
                (\<exists>s3. nested_get T (int (length combos)) (default_getter pbo) s2 = (Inr t, s3))"
    by blast
  from length_combos_Suc [OF assms(1)] obtain d where d: "length combos = Suc d" by auto
  obtain fs where fl: "flatten T (int (length combos)) = Inr fs"
    using flatten_handles [OF rel [unfolded d]] unfolding d by blast
  from pbar_loop [of "\<lparr>total = n, disabled = hide_progbar\<rparr>" "as_completed ev fs" s1]
  obtain us s2 where
    loop: "mapM (\<lambda>f. pbar_update \<lparr>total = n, disabled = hide_progbar\<rparr>) (as_completed ev fs) s1
             = (Inr us, s2)" and keep: "submitted s2 = submitted s1" by blast
  from get [rule_format, OF keep, of None] obtain s3 where
    "nested_get T (int (length combos)) (default_getter None) s2 = (Inr t, s3)" by auto
  with sub fl loop path exec show ?thesis
    by (simp add: combo_runner_core_def n bindM_apply liftE_apply returnM_def Let_def)
qed

lemma run_distributed:
  assumes "combos \<noteq> []" and ref: "pure_tree (fn_call f) combos constants = Inr t"
    and b: "backend_of parallel num_workers scheduler pool = Distributed"
    and sup: "supported ev s combos constants parallel num_workers scheduler pool"
  shows "\<exists>s'. combo_runner_core ev f combos constants False parallel num_workers scheduler pool
                 hide_progbar s = (Inr t, s')"
proof -
  from prod_it_dims [OF assms(1)] obtain n where
    n: "prod_it (map (\<lambda>(a, x). length x) combos) = Inr n" by auto
  from b obtain p where p: "pool = Some p" "has_scheduler p"
    by (auto simp: backend_of_def split: option.splits if_splits)
  from sup b p have api: "pool_api p = HasSubmit" and names: "reserved_free combos constants"
    and st: "stored_ok (submitted s) (stored s)"
    and ac: "\<And>fs. set (as_completed ev fs) \<subseteq> set fs"
    by (auto simp: supported_def)
  from api have api': "pool_api p \<noteq> HasNeither" by simp
  from pooled_then_get [OF assms(1) ref api' names, of s] obtain T s1 new where
    sub: "nested_submit (lift_fn (fn_call f)) combos constants False (Some p) default_submitter s
            = (Inr T, s1)"
    and s1: "stored s1 = stored s" "submitted s1 = submitted s @ new"
    and rel: "tree_rel (handle_of (pool_api p = HasSubmit) (submitted s1)) (length combos) T t"
    by blast
  let ?js = "submitted s1"
  from rel api have rel': "tree_rel (handle_of True ?js) (length combos) T t" by simp
  have k1: "keeps ?js s1"
    using stored_ok_append [OF st, of new] s1 by (simp add: keeps_def)
  from length_combos_Suc [OF assms(1)] obtain d where d: "length combos = Suc d" by auto
  obtain fs where fl: "flatten T (int (length combos)) = Inr fs"
    and fs: "\<forall>f\<in>set fs. \<exists>v. handle_of True ?js f v"
    using flatten_handles [OF rel' [unfolded d]] unfolding d by blast
  from fs ac [of fs] have "\<forall>f\<in>set (as_completed ev fs). \<exists>v. handle_of True ?js f v" by blast
  from store_loop [OF this k1, of "\<lparr>total = n, disabled = hide_progbar\<rparr>"] obtain us s2 where
    loop: "mapM (\<lambda>f. bindM (store_result f) (\<lambda>u. pbar_update \<lparr>total = n, disabled = hide_progbar\<rparr>))
             (as_completed ev fs) s1 = (Inr us, s2)" and k2: "keeps ?js s2" by blast
  obtain s3 where
    "nested_get T (int (length combos)) try_stored_then_result s2 = (Inr t, s3)"
    using collection [OF try_stored_good rel' [unfolded d] k2] unfolding d by blast
  with sub fl loop p show ?thesis
    by (simp add: combo_runner_core_def n bindM_apply liftE_apply returnM_def Let_def)
qed

lemma backends_agree:
  assumes "combos \<noteq> []" and "pure_tree (fn_call f) combos constants = Inr t"
    and "supported ev s combos constants parallel num_workers scheduler pool"
    and "get_fn_name f = Inr fn_name"
  shows "\<exists>r s'. combo_runner_core ev f combos constants False parallel num_workers scheduler pool
                   hide_progbar s = (Inr r, s') \<and>
                 (if backend_of parallel num_workers scheduler pool = Dask
                  then r = TupleV (items t) else r = t)"
proof (cases "backend_of parallel num_workers scheduler pool")
  case Distributed
  with run_distributed [OF assms(1,2) Distributed assms(3)] show ?thesis by auto
next
  case GenericPool
  with run_generic_pool [OF assms(1,2) GenericPool assms(3)] show ?thesis by auto
next
  case MPI
  with run_mpi [OF assms(1,2) MPI assms(3)] show ?thesis by auto
next
  case Dask
  with run_dask [OF assms(1,2) Dask assms(3,4)] show ?thesis by auto
next
  case ProcessPool
  with run_process_pool [OF assms(1,2) ProcessPool assms(3)] show ?thesis by auto
next
  case Sequential
  with run_sequential [OF assms(1,2) Sequential] show ?thesis by auto
qed

lemma pure_tree_combos3: "pure_tree (fn_call foo3_scalar) combos3 [] = Inr tree3"
  by code_simp

lemma pure_tree_combos1: "pure_tree (fn_call foo3_scalar) combos1 constants1 = Inr (ListV [IntV 321, IntV 322])"
  by code_simp

lemma foo3_scalar_name: "get_fn_name foo3_scalar = Inr ''foo3_scalar''"
  by (simp add: get_fn_name_def foo3_scalar_def)

lemma tree_at_items:
  "py_iter t = Inr xs \<Longrightarrow> tree_at (TupleV (items t)) (i # idx) = tree_at t (i # idx)"
  by (simp add: items.simps)

text \<open>
  Claim C3. For the combination list \<open>a \<in> [1, 2]\<close>, \<open>b \<in> [10, 20, 30]\<close>,
  \<open>c \<in> [100, 200, 300, 400]\<close> and the function \<open>a + b + c\<close>, the core runner returns,
  on every supported backend configuration (distributed pool, generic pool, MPI pool,
  deferred graph, process pool, sequential), a tree holding 111 at index \<open>(0, 0, 0)\<close> and
  432 at index \<open>(1, 2, 3)\<close>.
\<close>

theorem example_grid_any_backend:
  assumes "supported ev s combos3 [] parallel num_workers scheduler pool"
  shows "\<exists>r s'. combo_runner_core ev foo3_scalar combos3 [] False parallel num_workers scheduler
                   pool hide_progbar s = (Inr r, s') \<and>
                 tree_at r [0, 0, 0] = Some (IntV 111) \<and>
                 tree_at r [1, 2, 3] = Some (IntV 432)"
proof -
  have ne: "combos3 \<noteq> []" by (simp add: combos3_def)
  from backends_agree [OF ne pure_tree_combos3 assms foo3_scalar_name, of hide_progbar]
  obtain r s' where
    run: "combo_runner_core ev foo3_scalar combos3 [] False parallel num_workers scheduler
            pool hide_progbar s = (Inr r, s')"
    and r: "r = TupleV (items tree3) \<or> r = tree3"
    by (auto split: if_splits)
  have it: "py_iter tree3 = Inr (items tree3)" by (simp add: tree3_def items.simps)
  have a: "tree_at tree3 [0, 0, 0] = Some (IntV 111)" and b: "tree_at tree3 [1, 2, 3] = Some (IntV 432)"
    by (simp_all add: tree3_def)
  from r have "tree_at r [0, 0, 0] = Some (IntV 111) \<and> tree_at r [1, 2, 3] = Some (IntV 432)"
  proof
    assume "r = TupleV (items tree3)"
    then show ?thesis
      using tree_at_items [OF it, of 0 "[0, 0]"] tree_at_items [OF it, of 1 "[2, 3]"] a b
      by (simp only:)
  next
    assume "r = tree3"
    with a b show ?thesis by (simp only:)
  qed
  with run show ?thesis by blast
qed

theorem example_grid_any_backend_witness:
  "\<exists>r s'. combo_runner_core env0 foo3_scalar combos3 [] False (ParBool False) (Some 2)
             (Some (SchedName ''t'')) None False world0 = (Inr r, s') \<and>
           tree_at r [0, 0, 0] = Some (IntV 111) \<and> tree_at r [1, 2, 3] = Some (IntV 432)"
proof -
  have "supported env0 world0 combos3 [] (ParBool False) (Some 2) (Some (SchedName ''t'')) None"
    by (simp add: supported_def backend_of_def truthy_scheduler_def env0_def)
  from example_grid_any_backend [OF this] show ?thesis .
qed

text \<open>
  Claim C8. For the single-entry combination list \<open>a \<in> [1, 2]\<close> with the constants
  \<open>b = 20\<close>, \<open>c = 300\<close> and the function \<open>a + b + c\<close>, the core runner returns the
  sequence 321, 322 on every supported backend configuration: the constants are merged
  into every call next to the iterated argument. The sequence is a list, except on the
  deferred-graph backend, whose graph evaluation hands its results back as a tuple.
\<close>

theorem single_combo_constants:
  assumes "supported ev s combos1 constants1 parallel num_workers scheduler pool"
  shows "\<exists>r s'. combo_runner_core ev foo3_scalar combos1 constants1 False parallel num_workers
                   scheduler pool hide_progbar s = (Inr r, s') \<and>
                 py_iter r = Inr [IntV 321, IntV 322] \<and>
                 (if backend_of parallel num_workers scheduler pool = Dask
                  then r = TupleV [IntV 321, IntV 322] else r = ListV [IntV 321, IntV 322])"
proof -
  have ne: "combos1 \<noteq> []" by (simp add: combos1_def)
  from backends_agree [OF ne pure_tree_combos1 assms foo3_scalar_name, of hide_progbar]
  obtain r s' where
    run: "combo_runner_core ev foo3_scalar combos1 constants1 False parallel num_workers scheduler
            pool hide_progbar s = (Inr r, s')"
    and r: "if backend_of parallel num_workers scheduler pool = Dask
            then r = TupleV (items (ListV [IntV 321, IntV 322])) else r = ListV [IntV 321, IntV 322]"
    by auto
  from r have "py_iter r = Inr [IntV 321, IntV 322] \<and>
                 (if backend_of parallel num_workers scheduler pool = Dask
                  then r = TupleV [IntV 321, IntV 322] else r = ListV [IntV 321, IntV 322])"
    by (auto split: if_splits)
  with run show ?thesis by blast
qed

theorem single_combo_constants_witness:
  "\<exists>s'. combo_runner_core env0 foo3_scalar combos1 constants1 False (ParBool True) None None None
           False world0 = (Inr (ListV [IntV 321, IntV 322]), s')"
proof -
  have "supported env0 world0 combos1 constants1 (ParBool True) None None None"
    by (simp add: supported_def backend_of_def truthy_scheduler_def truthy_parallel_def
          reserved_free_def combos1_def constants1_def)
  from single_combo_constants [OF this, of False] show ?thesis
    by (auto simp: backend_of_def truthy_scheduler_def truthy_parallel_def)
qed

lemma flatten_top: "py_iter r = py_iter t \<Longrightarrow> flatten r n = flatten t n"
  by (subst (1 2) flatten.simps) simp

lemma sequential_is_reference:
  assumes "combos \<noteq> []"
  shows "fst (combo_runner_core ev f combos constants False (ParBool False) None None None
                hide_progbar s) = pure_tree (fn_call f) combos constants"
proof -
  from prod_it_dims [OF assms] obtain n where
    n: "prod_it (map (\<lambda>(a, x). length x) combos) = Inr n" by auto
  let ?run = "nested_submit (update_upon_eval (lift_fn (fn_call f)) \<lparr>total = n, disabled = hide_progbar\<rparr>)
                combos constants False None default_submitter s"
  have "fst ?run = pure_tree (fn_call f) combos constants" by (rule sequential_value)
  then show ?thesis
    by (cases ?run)
       (auto simp: combo_runner_core_def n bindM_apply liftE_apply returnM_def Let_def
          truthy_scheduler_def truthy_parallel_def truthy_num_workers_def split: sum.splits)
qed

lemma pure_tree_has_shape:
  assumes "combos \<noteq> []" and "pure_tree f combos kwds = Inr t"
  shows "has_shape (dims combos) t"
proof -
  have "nested_submit (lift_fn f) combos kwds False None default_submitter world0 = (Inr t, world0)"
    using nested_submit_pure [of "lift_fn f" False None default_submitter f combos kwds,
        OF leaf_op_direct] assms(2)
    by (simp add: liftE_apply)
  from nested_submit_has_shape [OF assms(1) this] show ?thesis .
qed

lemma mapE_Inr_map:
  "(\<And>x. x \<in> set xs \<Longrightarrow> g x = Inr (k x)) \<Longrightarrow> mapE g xs = Inr (map k xs)"
  by (induction xs) auto

lemma flatten_leaves:
  "ns \<noteq> [] \<Longrightarrow> has_shape ns t \<Longrightarrow> flatten t (int (length ns)) = Inr (leaves_at (length ns) t)"
proof (induction ns arbitrary: t rule: list_nonempty_induct)
  case (single n)
  then obtain xs where t: "t = ListV xs" using has_shape_ConsD [of n "[]" t] by auto
  have c: "concat (map (leaves_at 0) ys) = ys" for ys :: "val list"
    by (induction ys) auto
  show ?case
    using flatten_Suc [of t 0] by (simp add: t c)
next
  case (cons n ns)
  from cons.prems obtain xs where t: "t = ListV xs" and sub: "\<forall>x\<in>set xs. has_shape ns x"
    using has_shape_ConsD [of n ns t] by auto
  have "mapE (\<lambda>it. flatten it (int (length ns))) xs = Inr (map (leaves_at (length ns)) xs)"
    by (rule mapE_Inr_map) (simp add: cons.IH sub)
  then show ?case
    using cons.hyps flatten_Suc [of t "length ns"] by (simp add: t)
qed

lemma modes_agree:
  assumes ne: "combos \<noteq> []" and names: "reserved_free combos constants"
    and seq: "combo_runner_core ev fn combos constants False (ParBool False) None None None
                hide_progbar s = (Inr t, s1)"
    and pp: "backend_of par2 nw2 sch2 None = ProcessPool" "case nw2 of None \<Rightarrow> True | Some n \<Rightarrow> 0 < n"
    and dk: "backend_of par3 nw3 sch3 None = Dask"
      "supported ev s combos constants par3 nw3 sch3 None" "get_fn_name fn = Inr fn_name"
  shows "\<exists>r2 s2 r3 s3 leaves.
           combo_runner_core ev fn combos constants False par2 nw2 sch2 None hide_progbar s
             = (Inr r2, s2) \<and>
           combo_runner_core ev fn combos constants False par3 nw3 sch3 None hide_progbar s
             = (Inr r3, s3) \<and>
           flatten t (int (length combos)) = Inr leaves \<and>
           flatten r2 (int (length combos)) = Inr leaves \<and>
           flatten r3 (int (length combos)) = Inr leaves"
proof -
  have ref: "pure_tree (fn_call fn) combos constants = Inr t"
    using sequential_is_reference [OF ne, of ev fn constants hide_progbar s] seq by simp
  have sup2: "supported ev s combos constants par2 nw2 sch2 None"
    using pp names by (simp add: supported_def)
  from backends_agree [OF ne ref sup2 dk(3), of hide_progbar] pp(1) obtain s2 where
    r2: "combo_runner_core ev fn combos constants False par2 nw2 sch2 None hide_progbar s
           = (Inr t, s2)" by auto
  from backends_agree [OF ne ref dk(2,3), of hide_progbar] dk(1) obtain s3 where
    r3: "combo_runner_core ev fn combos constants False par3 nw3 sch3 None hide_progbar s
           = (Inr (TupleV (items t)), s3)" by auto
  from pure_tree_ListV [OF ref] obtain xs where t: "t = ListV xs" by auto
  have shape: "has_shape (dims combos) t" by (rule pure_tree_has_shape [OF ne ref])
  have d: "dims combos \<noteq> []" "length (dims combos) = length combos"
    using ne by (simp_all add: dims_def)
  from flatten_leaves [OF d(1) shape] have
    fl: "flatten t (int (length combos)) = Inr (leaves_at (length combos) t)"
    by (simp add: d(2))
  have "flatten (TupleV (items t)) (int (length combos)) = flatten t (int (length combos))"
    by (rule flatten_top) (simp add: t)
  with r2 r3 fl show ?thesis by auto
qed

text \<open>
  Claim C4 says that the flattened result of the sequential mode equals that of the
  process-pool mode and of the deferred-graph mode for every function, combination list and
  constants. \<open>modes_agree\<close> above proves it, for a function whose name the deferred-graph
  mode can look up, for all argument names but two:
  \<open>default_submitter\<close> declares the parameters \<^verbatim>\<open>pool\<close> and \<^verbatim>\<open>fn\<close> ahead of
  \<^verbatim>\<open>**kwds\<close>, so a combination argument or a constant of either name cannot be passed
  through it. The evaluation below is the failing input: the function of one argument
  named \<^verbatim>\<open>fn\<close> runs in the sequential and in the deferred-graph mode, and raises a type
  error in the process-pool mode.
\<close>

theorem reserved_name_breaks_process_pool:
  "combo_runner_core env0 echo_fn [(''fn'', [IntV 1])] [] False (ParBool False) None None None
     False world0 = (Inr (ListV [IntV 1]), world0\<lparr>progress := 1\<rparr>) \<and>
   combo_runner_core env0 echo_fn [(''fn'', [IntV 1])] [] False (ParStr ''dask'') None None None
     False world0 = (Inr (TupleV [IntV 1]), world0) \<and>
   combo_runner_core env0 echo_fn [(''fn'', [IntV 1])] [] False (ParBool True) None None None
     False world0 = (Inl (TypeError ''got multiple values for argument''), world0)"
  by code_simp

section \<open>Submission as a run over the grid\<close>

lemma chunks_concat:
  "\<forall>ls\<in>set lss. length ls = m \<Longrightarrow> chunks m (length lss) (concat lss) = lss"
  by (induction lss) auto

lemma length_chunks [simp]: "length (chunks m k xs) = k"
  by (induction k arbitrary: xs) auto

lemma concat_chunks: "length xs = k * m \<Longrightarrow> concat (chunks m k xs) = xs"
  by (induction k arbitrary: xs) auto

lemma chunks_lengths: "length xs = k * m \<Longrightarrow> c \<in> set (chunks m k xs) \<Longrightarrow> length c = m"
proof (induction k arbitrary: xs)
  case 0
  then show ?case by simp
next
  case (Suc k)
  from Suc.prems(1) have "length (drop m xs) = k * m" by simp
  with Suc.IH [of "drop m xs"] Suc.prems show ?case by auto
qed

lemma chunks_unit: "length xs = k \<Longrightarrow> map (nest []) (chunks (Suc 0) k xs) = xs"
proof (induction k arbitrary: xs)
  case 0
  then show ?case by simp
next
  case (Suc k)
  then obtain y ys where "xs = y # ys" by (cases xs) auto
  with Suc show ?case by simp
qed

lemma mapM_map: "mapM f (map g xs) = mapM (\<lambda>x. f (g x)) xs"
  by (induction xs) (simp_all add: mapM.simps(2))

lemma bindM_mapM_post:
  assumes "\<And>ys. length ys = length xs \<Longrightarrow>
             (\<forall>i<length xs. \<exists>s1 s2. h (xs ! i) s1 = (Inr (ys ! i), s2)) \<Longrightarrow> g ys = g' ys"
  shows "bindM (mapM h xs) g = bindM (mapM h xs) g'"
proof (rule ext)
  fix s
  show "bindM (mapM h xs) g s = bindM (mapM h xs) g' s"
  proof (cases "mapM h xs s")
    case (Pair r s')
    show ?thesis
    proof (cases r)
      case (Inl e)
      with Pair show ?thesis by (simp add: bindM_apply)
    next
      case (Inr ys)
      with Pair mapM_Inr_nth [of h xs s ys s'] assms [of ys] show ?thesis
        by (simp add: bindM_apply)
    qed
  qed
qed

lemma bindM_liftE_Inr: "bindM (liftE (Inr x)) f = f x"
  by (rule ext) (simp add: bindM_apply liftE_apply)

lemma bindM_returnM_left: "bindM (returnM x) f = f x"
  by (rule ext) (simp add: bindM_apply returnM_def)

lemma length_indices: "length (indices ns) = prod_list ns"
proof (induction ns)
  case Nil
  show ?case by simp
next
  case (Cons n ns)
  have "sum_list (map (\<lambda>i. length (indices ns)) [0..<n]) = n * length (indices ns)"
    by (simp add: sum_list_triv)
  then show ?case
    by (simp add: length_concat comp_def Cons.IH)
qed

lemma concat_map_single: "concat (map (\<lambda>i. [f i]) xs) = map f xs"
  by (induction xs) simp_all

lemma indices_single: "indices [n] = map (\<lambda>i. [i]) [0..<n]"
  by (simp only: indices.simps list.map concat_map_single)

lemma bound_args_Cons:
  "bound_args ((arg, inputs) # rest) (i # idx) = (arg, inputs ! i) # bound_args rest idx"
  by (simp add: bound_args_def)

lemma bound_args_Nil [simp]: "bound_args rest [] = []" "bound_args [] idx = []"
  by (simp_all add: bound_args_def)

lemma dims_Cons [simp]: "dims ((arg, inputs) # rest) = length inputs # dims rest" "dims [] = []"
  by (simp_all add: dims_def)

lemma nested_submit_flat:
  "combos \<noteq> [] \<Longrightarrow> distinct (map fst combos) \<Longrightarrow> fst ` set combos \<inter> fst ` set kwds = {} \<Longrightarrow>
   nested_submit fn combos kwds delay pool submitter
     = bindM (mapM (\<lambda>idx. leaf_op fn delay pool submitter (kwds @ bound_args combos idx))
                (indices (dims combos)))
             (\<lambda>leaves. returnM (nest (dims combos) leaves))"
proof (induction combos arbitrary: kwds rule: list_nonempty_induct)
  case (single c)
  obtain arg inputs where c: "c = (arg, inputs)" by (cases c)
  let ?L = "leaf_op fn delay pool submitter"
  have fresh: "arg \<notin> fst ` set kwds" using single.prems(2) c by auto
  have "nested_submit fn [c] kwds delay pool submitter
          = bindM (mapM (\<lambda>x. ?L (kwds @ [(arg, x)])) inputs) (\<lambda>leaves. returnM (ListV leaves))"
    by (simp add: c nested_submit_inner call_kwargs_fresh [OF fresh] bindM_liftE_Inr)
  also have "mapM (\<lambda>x. ?L (kwds @ [(arg, x)])) inputs
          = mapM (\<lambda>idx. ?L (kwds @ bound_args [c] idx)) (indices (dims [c]))"
  proof -
    have "mapM (\<lambda>idx. ?L (kwds @ bound_args [c] idx)) (indices (dims [c]))
            = mapM (\<lambda>i. ?L (kwds @ [(arg, inputs ! i)])) [0..<length inputs]"
      by (simp add: c indices_single mapM_map bound_args_Cons)
    also have "\<dots> = mapM (\<lambda>x. ?L (kwds @ [(arg, x)])) (map (\<lambda>i. inputs ! i) [0..<length inputs])"
      by (simp only: mapM_map)
    also have "map (\<lambda>i. inputs ! i) [0..<length inputs] = inputs"
      by (rule map_nth)
    finally show ?thesis by simp
  qed
  also have "bindM (mapM (\<lambda>idx. ?L (kwds @ bound_args [c] idx)) (indices (dims [c])))
               (\<lambda>leaves. returnM (ListV leaves))
           = bindM (mapM (\<lambda>idx. ?L (kwds @ bound_args [c] idx)) (indices (dims [c])))
               (\<lambda>leaves. returnM (nest (dims [c]) leaves))"
  proof (rule bindM_mapM_post)
    fix ys :: "val list"
    assume "length ys = length (indices (dims [c]))"
    then have "length ys = length inputs" by (simp add: c indices_single)
    then show "returnM (ListV ys) = returnM (nest (dims [c]) ys)"
      by (simp add: c chunks_unit)
  qed
  finally show ?case .
next
  case (cons c rest)
  obtain arg inputs where c: "c = (arg, inputs)" by (cases c)
  let ?L = "leaf_op fn delay pool submitter"
  let ?dr = "dims rest"
  let ?H = "\<lambda>x. mapM (\<lambda>idx. ?L (kwds @ (arg, x) # bound_args rest idx)) (indices ?dr)"
  have fresh: "arg \<notin> fst ` set kwds" using cons.prems(2) c by auto
  have d: "distinct (map fst rest)" and n: "arg \<notin> fst ` set rest"
    using cons.prems(1) c by auto
  have sub: "nested_submit fn rest (dict_set kwds arg x) delay pool submitter
               = bindM (?H x) (\<lambda>leaves. returnM (nest ?dr leaves))" for x
  proof -
    have disj: "fst ` set rest \<inter> fst ` set (kwds @ [(arg, x)]) = {}"
      using cons.prems(2) n c by auto
    from cons.IH [OF d disj] show ?thesis
      by (simp add: dict_set_fresh [OF fresh])
  qed
  have lhs: "nested_submit fn (c # rest) kwds delay pool submitter
          = bindM (mapM ?H inputs) (\<lambda>lss. returnM (ListV (map (nest ?dr) lss)))"
    by (simp add: c nested_submit_outer [OF cons.hyps] sub mapM_bind_return bindM_assoc
          bindM_returnM_left)
  have "mapM (\<lambda>idx. ?L (kwds @ bound_args (c # rest) idx)) (indices (dims (c # rest)))
          = bindM (mapM (\<lambda>i. ?H (inputs ! i)) [0..<length inputs])
              (\<lambda>yss. returnM (concat yss))"
    by (simp add: c mapM_concat mapM_map bound_args_Cons)
  also have "mapM (\<lambda>i. ?H (inputs ! i)) [0..<length inputs]
          = mapM ?H (map (\<lambda>i. inputs ! i) [0..<length inputs])"
    by (simp only: mapM_map)
  also have "map (\<lambda>i. inputs ! i) [0..<length inputs] = inputs"
    by (rule map_nth)
  finally have rhs: "bindM (mapM (\<lambda>idx. ?L (kwds @ bound_args (c # rest) idx))
                              (indices (dims (c # rest))))
                       (\<lambda>leaves. returnM (nest (dims (c # rest)) leaves))
          = bindM (mapM ?H inputs) (\<lambda>yss. returnM (nest (dims (c # rest)) (concat yss)))"
    by (simp add: bindM_assoc bindM_returnM_left)
  have "bindM (mapM ?H inputs) (\<lambda>lss. returnM (ListV (map (nest ?dr) lss)))
          = bindM (mapM ?H inputs) (\<lambda>yss. returnM (nest (dims (c # rest)) (concat yss)))"
  proof (rule bindM_mapM_post)
    fix lss :: "val list list"
    assume len: "length lss = length inputs"
      and each: "\<forall>i<length inputs. \<exists>s1 s2. ?H (inputs ! i) s1 = (Inr (lss ! i), s2)"
    have "\<forall>ls\<in>set lss. length ls = prod_list ?dr"
    proof
      fix ls assume "ls \<in> set lss"
      then obtain i where i: "i < length lss" "ls = lss ! i" by (auto simp: in_set_conv_nth)
      with each len obtain s1 s2 where "?H (inputs ! i) s1 = (Inr ls, s2)" by auto
      from mapM_Inr_nth [OF this] show "length ls = prod_list ?dr"
        by (simp add: length_indices)
    qed
    from chunks_concat [OF this] len
    show "returnM (ListV (map (nest ?dr) lss)) = returnM (nest (dims (c # rest)) (concat lss))"
      by (simp add: c)
  qed
  with lhs rhs show ?case by simp
qed


lemma has_shape_nest: "has_shape ns (nest ns xs)"
  by (induction ns arbitrary: xs) (auto simp: in_set_conv_nth)

lemma leaves_at_nest:
  "length xs = prod_list ns \<Longrightarrow> leaves_at (length ns) (nest ns xs) = xs"
proof (induction ns arbitrary: xs)
  case Nil
  then obtain x where "xs = [x]" by (cases xs) auto
  then show ?case by simp
next
  case (Cons n ns)
  let ?cs = "chunks (prod_list ns) n xs"
  from Cons.prems have len: "length xs = n * prod_list ns" by simp
  have "map (\<lambda>c. leaves_at (length ns) (nest ns c)) ?cs = ?cs"
    by (rule map_idI) (simp add: Cons.IH chunks_lengths [OF len])
  then show ?case
    by (simp add: comp_def concat_chunks [OF len])
qed

lemma map_nth_all: "map (\<lambda>i. g (cs ! i)) [0..<length cs] = map g cs"
proof -
  have "map (\<lambda>i. g (cs ! i)) [0..<length cs] = map g (map (\<lambda>i. cs ! i) [0..<length cs])"
    by (simp only: map_map comp_def)
  then show ?thesis by (simp only: map_nth)
qed

lemma tree_at_ListV_Cons:
  "tree_at (ListV subs) (i # idx) = (if i < length subs then tree_at (subs ! i) idx else None)"
  by simp

lemma tree_at_nest:
  "length xs = prod_list ns \<Longrightarrow> map (tree_at (nest ns xs)) (indices ns) = map Some xs"
proof (induction ns arbitrary: xs)
  case Nil
  then obtain x where "xs = [x]" by (cases xs) auto
  then show ?case by simp
next
  case (Cons n ns)
  let ?m = "prod_list ns"
  let ?cs = "chunks ?m n xs"
  let ?t = "ListV (map (nest ns) ?cs)"
  from Cons.prems have len: "length xs = n * ?m" by simp
  have row: "map (\<lambda>idx. tree_at ?t (i # idx)) (indices ns) = map Some (?cs ! i)"
    if "i \<in> set [0..<n]" for i
  proof -
    from that have i: "i < n" by simp
    then have "length (?cs ! i) = ?m"
      by (intro chunks_lengths [OF len]) simp
    from Cons.IH [OF this] i show ?thesis
      by (simp only: tree_at_ListV_Cons length_map length_chunks if_True nth_map)
  qed
  have "map (tree_at (nest (n # ns) xs)) (indices (n # ns))
          = concat (map (\<lambda>i. map (\<lambda>idx. tree_at ?t (i # idx)) (indices ns)) [0..<n])"
    by (simp add: map_concat comp_def)
  also have "\<dots> = concat (map (\<lambda>i. map Some (?cs ! i)) [0..<n])"
    by (rule arg_cong [where f = concat], rule map_cong [OF refl], rule row)
  also have "map (\<lambda>i. map Some (?cs ! i)) [0..<n] = map (map Some) ?cs"
    using map_nth_all [of "map Some" ?cs] by simp
  also have "concat (map (map Some) ?cs) = map Some (concat ?cs)"
    by (simp add: map_concat)
  finally show ?case
    by (simp only: concat_chunks [OF len])
qed

lemma set_indices: "set (indices ns) = {idx. valid_index ns idx}"
proof (induction ns)
  case Nil
  show ?case by (auto simp: valid_index_def)
next
  case (Cons n ns)
  have "{idx. valid_index (n # ns) idx}
          = {idx. \<exists>i idx'. idx = i # idx' \<and> i < n \<and> valid_index ns idx'}"
    by (auto simp: valid_index_def list_all2_Cons2)
  also have "\<dots> = (\<Union>i\<in>{0..<n}. (#) i ` set (indices ns))"
    by (auto simp: Cons.IH)
  finally show ?case by simp
qed

lemma sorted_wrt_rows:
  assumes "\<And>i. i < n \<Longrightarrow> sorted_wrt R (F i)"
    and "\<And>i j a b. i < j \<Longrightarrow> j < n \<Longrightarrow> a \<in> set (F i) \<Longrightarrow> b \<in> set (F j) \<Longrightarrow> R a b"
  shows "sorted_wrt R (concat (map F [0..<n]))"
  using assms
proof (induction n)
  case 0
  show ?case by simp
next
  case (Suc n)
  have "sorted_wrt R (concat (map F [0..<n]))"
    by (rule Suc.IH) (auto intro: Suc.prems)
  moreover have "sorted_wrt R (F n)" by (rule Suc.prems(1)) simp
  moreover have "R a b" if "a \<in> set (concat (map F [0..<n]))" "b \<in> set (F n)" for a b
  proof -
    from that(1) obtain i where "i < n" "a \<in> set (F i)" by auto
    with that(2) show ?thesis by (intro Suc.prems(2) [of i n]) simp_all
  qed
  ultimately show ?case by (simp add: sorted_wrt_append)
qed

lemma sorted_indices: "sorted_wrt lex_less (indices ns)"
proof (induction ns)
  case Nil
  show ?case by simp
next
  case (Cons n ns)
  have "sorted_wrt lex_less (concat (map (\<lambda>i. map ((#) i) (indices ns)) [0..<n]))"
  proof (rule sorted_wrt_rows)
    fix i
    show "sorted_wrt lex_less (map ((#) i) (indices ns))"
      using Cons.IH by (simp add: sorted_wrt_map)
  next
    fix i j :: nat and a b
    assume "i < j" "a \<in> set (map ((#) i) (indices ns))" "b \<in> set (map ((#) j) (indices ns))"
    then show "lex_less a b" by auto
  qed
  then show ?case by simp
qed

lemma default_submitter_run:
  assumes "pool_api p \<noteq> HasNeither" and "''pool'' \<notin> fst ` set kw" and "''fn'' \<notin> fst ` set kw"
  shows "default_submitter p (lift_fn f) kw s
           = (Inr (handle_kind p (length (submitted s))), ext s [(kw, f kw)])"
  using assms
  by (cases "pool_api p")
     (auto simp: default_submitter_def pool_submit_def pool_apply_async_def lift_fn_def liftE_def
        raiseM_def ext_def handle_kind_def)

lemma mapM_default_submitter:
  assumes "pool_api p \<noteq> HasNeither"
  shows "\<forall>kw\<in>set kws. ''pool'' \<notin> fst ` set kw \<and> ''fn'' \<notin> fst ` set kw \<Longrightarrow>
         mapM (default_submitter p (lift_fn f)) kws s
           = (Inr (map (handle_kind p) [length (submitted s)..<length (submitted s) + length kws]),
              ext s (map (\<lambda>kw. (kw, f kw)) kws))"
proof (induction kws arbitrary: s)
  case Nil
  show ?case by (simp add: returnM_def)
next
  case (Cons kw kws)
  let ?a = "length (submitted s)"
  have step: "default_submitter p (lift_fn f) kw s
                = (Inr (handle_kind p ?a), ext s [(kw, f kw)])"
    by (rule default_submitter_run [OF assms]) (use Cons.prems in auto)
  have rest: "mapM (default_submitter p (lift_fn f)) kws (ext s [(kw, f kw)])
                = (Inr (map (handle_kind p) [Suc ?a..<Suc ?a + length kws]),
                   ext s ((kw, f kw) # map (\<lambda>kw. (kw, f kw)) kws))"
    using Cons.IH [of "ext s [(kw, f kw)]"] Cons.prems by simp
  have "?a < ?a + length (kw # kws)" by simp
  from upt_conv_Cons [OF this]
  have "[?a..<?a + length (kw # kws)] = ?a # [Suc ?a..<Suc ?a + length kws]"
    by simp
  then show ?case
    by (simp add: mapM_Cons_apply step rest)
qed

lemma keys_bound_args: "fst ` set (bound_args combos idx) \<subseteq> fst ` set combos"
proof
  fix a
  assume "a \<in> fst ` set (bound_args combos idx)"
  then obtain c i where "(c, i) \<in> set (zip combos idx)" "a = fst c"
    by (auto simp: bound_args_def)
  then show "a \<in> fst ` set combos"
    by (auto dest: set_zip_leftD)
qed

lemma nested_submit_pooled:
  assumes "combos \<noteq> []" and "distinct (map fst combos)"
    and "fst ` set combos \<inter> fst ` set kwds = {}"
    and "pool_api p \<noteq> HasNeither" and "reserved_free combos kwds"
  shows "nested_submit (lift_fn f) combos kwds delay (Some p) default_submitter s
           = (Inr (nest (dims combos)
                     (map (handle_kind p)
                        [length (submitted s)..<length (submitted s) + prod_list (dims combos)])),
              ext s (map (\<lambda>idx. (kwds @ bound_args combos idx, f (kwds @ bound_args combos idx)))
                       (indices (dims combos))))"
proof -
  let ?kws = "map (\<lambda>idx. kwds @ bound_args combos idx) (indices (dims combos))"
  have names: "\<forall>kw\<in>set ?kws. ''pool'' \<notin> fst ` set kw \<and> ''fn'' \<notin> fst ` set kw"
    using assms(5) keys_bound_args [of combos] by (auto simp: reserved_free_def)
  have op: "leaf_op (lift_fn f) delay (Some p) default_submitter = default_submitter p (lift_fn f)"
    by (simp add: leaf_op_def)
  have "mapM (\<lambda>idx. default_submitter p (lift_fn f) (kwds @ bound_args combos idx))
          (indices (dims combos)) = mapM (default_submitter p (lift_fn f)) ?kws"
    by (simp only: mapM_map)
  then show ?thesis
    by (simp add: nested_submit_flat [OF assms(1-3)] op bindM_apply returnM_def
          mapM_default_submitter [OF assms(4) names] length_indices comp_def)
qed


lemma mapM_returnM: "mapM (\<lambda>x. returnM (g x)) xs = returnM (map g xs)"
  by (induction xs) (simp_all add: mapM.simps(2) bindM_returnM_left)

lemma nested_submit_deferred_flat:
  assumes "combos \<noteq> []" and "distinct (map fst combos)"
    and "fst ` set combos \<inter> fst ` set kwds = {}"
  shows "nested_submit fn combos kwds True None submitter s
           = (Inr (nest (dims combos)
                     (map (\<lambda>idx. DelayedV (kwds @ bound_args combos idx)) (indices (dims combos)))),
              s)"
proof -
  have op: "leaf_op fn True None submitter = (\<lambda>kw. returnM (DelayedV kw))"
    by (rule ext) (simp add: leaf_op_def py_delayed_def)
  show ?thesis
    by (simp add: nested_submit_flat [OF assms] op mapM_returnM bindM_returnM_left)
       (simp add: returnM_def)
qed

text \<open>
  Claim C1. For every non-empty combination list and every mode (the leaf operation
  \<open>leaf_op\<close> is the direct call, the deferred node or the registration with the pool),
  whatever \<open>nested_submit\<close> returns is a nested list whose depth is the number of
  combination entries and whose dimension \<open>i\<close> has the length of the \<open>i\<close>-th value
  sequence. With distinct argument names that the constants do not use, \<open>nested_submit\<close>
  is, as a stateful computation, the run of the leaf operation over the index tuples of the
  grid in lexicographic order, on the constants extended by \<open>arg\<^sub>j = values\<^sub>j[i\<^sub>j]\<close>,
  followed by folding the leaves row by row: results, effects, the first failure and the
  final state agree. In the pooled mode with the default submitter the leaves are the
  handles numbered from the first free one in that order, and the calls are registered
  in that order, each with its arguments and its outcome; in the deferred mode the leaves
  are the deferred calls and the state is untouched; and \<open>nested_submit\<close> returns
  whenever the leaf operation succeeds on each argument set. The index tuples are exactly
  the valid indices, in strictly increasing lexicographic order, as many as the product of
  the dimensions; the folded tree has the dimensions of the grid, its leaves in traversal
  order are the flat list, and its leaf at the \<open>k\<close>-th index tuple is the \<open>k\<close>-th leaf.
\<close>

theorem nested_submit_cartesian:
  assumes "combos \<noteq> []"
  shows "(\<forall>t s'. nested_submit fn combos kwds delay pool submitter s = (Inr t, s') \<longrightarrow>
            has_shape (dims combos) t) \<and>
         (distinct (map fst combos) \<and> fst ` set combos \<inter> fst ` set kwds = {} \<longrightarrow>
            nested_submit fn combos kwds delay pool submitter
              = bindM (mapM (\<lambda>idx. leaf_op fn delay pool submitter (kwds @ bound_args combos idx))
                         (indices (dims combos)))
                      (\<lambda>leaves. returnM (nest (dims combos) leaves)) \<and>
            (pool_api p \<noteq> HasNeither \<and> reserved_free combos kwds \<longrightarrow>
               nested_submit (lift_fn f) combos kwds delay (Some p) default_submitter s
                 = (Inr (nest (dims combos)
                           (map (handle_kind p)
                              [length (submitted s)..<
                               length (submitted s) + prod_list (dims combos)])),
                    ext s (map (\<lambda>idx. (kwds @ bound_args combos idx,
                                        f (kwds @ bound_args combos idx)))
                             (indices (dims combos))))) \<and>
            nested_submit fn combos kwds True None submitter s
              = (Inr (nest (dims combos)
                        (map (\<lambda>idx. DelayedV (kwds @ bound_args combos idx))
                           (indices (dims combos)))),
                 s) \<and>
            ((\<forall>idx s1. valid_index (dims combos) idx \<longrightarrow>
                (\<exists>leaf s2. leaf_op fn delay pool submitter (kwds @ bound_args combos idx) s1
                   = (Inr leaf, s2))) \<longrightarrow>
             (\<exists>t s'. nested_submit fn combos kwds delay pool submitter s = (Inr t, s')))) \<and>
         set (indices (dims combos)) = {idx. valid_index (dims combos) idx} \<and>
         sorted_wrt lex_less (indices (dims combos)) \<and>
         length (indices (dims combos)) = prod_list (dims combos) \<and>
         (\<forall>leaves. length leaves = prod_list (dims combos) \<longrightarrow>
            has_shape (dims combos) (nest (dims combos) leaves) \<and>
            leaves_at (length combos) (nest (dims combos) leaves) = leaves \<and>
            map (tree_at (nest (dims combos) leaves)) (indices (dims combos)) = map Some leaves)"
proof (intro conjI allI impI)
  fix t s'
  assume "nested_submit fn combos kwds delay pool submitter s = (Inr t, s')"
  then show "has_shape (dims combos) t"
    by (rule nested_submit_has_shape [OF assms])
next
  assume n: "distinct (map fst combos) \<and> fst ` set combos \<inter> fst ` set kwds = {}"
  then have d: "distinct (map fst combos)" and i: "fst ` set combos \<inter> fst ` set kwds = {}"
    by simp_all
  show "nested_submit fn combos kwds delay pool submitter
          = bindM (mapM (\<lambda>idx. leaf_op fn delay pool submitter (kwds @ bound_args combos idx))
                     (indices (dims combos)))
                  (\<lambda>leaves. returnM (nest (dims combos) leaves))"
    by (rule nested_submit_flat [OF assms d i])
  show "nested_submit fn combos kwds True None submitter s
          = (Inr (nest (dims combos)
                    (map (\<lambda>idx. DelayedV (kwds @ bound_args combos idx))
                       (indices (dims combos)))),
             s)"
    by (rule nested_submit_deferred_flat [OF assms d i])
  {
    assume "pool_api p \<noteq> HasNeither \<and> reserved_free combos kwds"
    then have api: "pool_api p \<noteq> HasNeither" and names: "reserved_free combos kwds"
      by simp_all
    show "nested_submit (lift_fn f) combos kwds delay (Some p) default_submitter s
            = (Inr (nest (dims combos)
                      (map (handle_kind p)
                         [length (submitted s)..<
                          length (submitted s) + prod_list (dims combos)])),
               ext s (map (\<lambda>idx. (kwds @ bound_args combos idx,
                                   f (kwds @ bound_args combos idx)))
                        (indices (dims combos))))"
      by (rule nested_submit_pooled [OF assms d i api names])
  }
  {
    assume a: "\<forall>idx s1. valid_index (dims combos) idx \<longrightarrow>
                (\<exists>leaf s2. leaf_op fn delay pool submitter (kwds @ bound_args combos idx) s1
                   = (Inr leaf, s2))"
    show "\<exists>t s'. nested_submit fn combos kwds delay pool submitter s = (Inr t, s')"
    proof (rule nested_submit_returns [OF assms d i])
      fix idx s1
      assume "valid_index (dims combos) idx"
      with a show "\<exists>leaf s2. leaf_op fn delay pool submitter (kwds @ bound_args combos idx) s1
                  = (Inr leaf, s2)"
        by simp
    qed
  }
next
  show "set (indices (dims combos)) = {idx. valid_index (dims combos) idx}"
    by (rule set_indices)
  show "sorted_wrt lex_less (indices (dims combos))"
    by (rule sorted_indices)
  show "length (indices (dims combos)) = prod_list (dims combos)"
    by (rule length_indices)
next
  fix leaves :: "val list"
  assume len: "length leaves = prod_list (dims combos)"
  show "has_shape (dims combos) (nest (dims combos) leaves)"
    by (rule has_shape_nest)
  have "length (dims combos) = length combos" by (simp add: dims_def)
  with leaves_at_nest [OF len]
  show "leaves_at (length combos) (nest (dims combos) leaves) = leaves" by simp
  show "map (tree_at (nest (dims combos) leaves)) (indices (dims combos)) = map Some leaves"
    by (rule tree_at_nest [OF len])
qed

theorem nested_submit_cartesian_witness:
  "combos2 \<noteq> [] \<and>
   nested_submit (lift_fn (fn_call foo3_scalar)) combos2 [(''c'', IntV 300)] False
       (Some \<lparr>pool_api = HasSubmit, has_scheduler = False\<rparr>) default_submitter world0
     = (Inr (ListV [ListV [FutureV 0, FutureV 1, FutureV 2],
                    ListV [FutureV 3, FutureV 4, FutureV 5]]),
        world0\<lparr>submitted :=
          [([(''c'', IntV 300), (''a'', IntV 1), (''b'', IntV 10)], Inr (IntV 311)),
           ([(''c'', IntV 300), (''a'', IntV 1), (''b'', IntV 20)], Inr (IntV 321)),
           ([(''c'', IntV 300), (''a'', IntV 1), (''b'', IntV 30)], Inr (IntV 331)),
           ([(''c'', IntV 300), (''a'', IntV 2), (''b'', IntV 10)], Inr (IntV 312)),
           ([(''c'', IntV 300), (''a'', IntV 2), (''b'', IntV 20)], Inr (IntV 322)),
           ([(''c'', IntV 300), (''a'', IntV 2), (''b'', IntV 30)], Inr (IntV 332))]\<rparr>)"
proof -
  let ?kwds = "[(''c'', IntV 300)]"
  let ?p = "\<lparr>pool_api = HasSubmit, has_scheduler = False\<rparr>"
  have ne: "combos2 \<noteq> []" by (simp add: combos2_def)
  have names: "distinct (map fst combos2) \<and> fst ` set combos2 \<inter> fst ` set ?kwds = {}"
    by (simp add: combos2_def)
  have pooled: "pool_api ?p \<noteq> HasNeither \<and> reserved_free combos2 ?kwds"
    by (simp add: reserved_free_def combos2_def)
  note inst = nested_submit_cartesian [OF ne, of "lift_fn (fn_call foo3_scalar)" ?kwds False
      "Some ?p" default_submitter world0 ?p "fn_call foo3_scalar"]
  note run = inst [THEN conjunct2, THEN conjunct1, rule_format, OF names, THEN conjunct2,
      THEN conjunct1, rule_format, OF pooled]
  have "(Inr (nest (dims combos2)
                (map (handle_kind ?p)
                   [length (submitted world0)..<
                    length (submitted world0) + prod_list (dims combos2)])),
         ext world0 (map (\<lambda>idx. (?kwds @ bound_args combos2 idx,
                                  fn_call foo3_scalar (?kwds @ bound_args combos2 idx)))
                       (indices (dims combos2))))
        = (Inr (ListV [ListV [FutureV 0, FutureV 1, FutureV 2],
                       ListV [FutureV 3, FutureV 4, FutureV 5]]) :: err + val,
           world0\<lparr>submitted :=
             [([(''c'', IntV 300), (''a'', IntV 1), (''b'', IntV 10)], Inr (IntV 311)),
              ([(''c'', IntV 300), (''a'', IntV 1), (''b'', IntV 20)], Inr (IntV 321)),
              ([(''c'', IntV 300), (''a'', IntV 1), (''b'', IntV 30)], Inr (IntV 331)),
              ([(''c'', IntV 300), (''a'', IntV 2), (''b'', IntV 10)], Inr (IntV 312)),
              ([(''c'', IntV 300), (''a'', IntV 2), (''b'', IntV 20)], Inr (IntV 322)),
              ([(''c'', IntV 300), (''a'', IntV 2), (''b'', IntV 30)], Inr (IntV 332))]\<rparr>)"
    by code_simp
  with run ne show ?thesis by (simp only: simp_thms)
qed

end
